theory Spec2Isabelle
  imports Main
begin

section \<open>JavaScript values\<close>

text \<open>
  The component under verification is \<^verbatim>\<open>src/features/modals/NodeModal/index.tsx\<close>:
  \<^verbatim>\<open>normalizeNodeData\<close>, \<^verbatim>\<open>updateJsonAtPath\<close> and the three handlers
  \<^verbatim>\<open>handleEdit\<close>, \<^verbatim>\<open>handleSave\<close>, \<^verbatim>\<open>handleCancel\<close> of the modal.

  The file is an ES module, so it runs in strict mode.  The values that flow
  through it are JSON values (the results of \<^verbatim>\<open>JSON.parse\<close>) and
  \<^verbatim>\<open>undefined\<close> (the result of reading a property that does not exist), which
  is \<open>None\<close> of \<open>json option\<close>.  An abrupt completion (a thrown exception)
  is the value \<open>Throw\<close>.

  Scope of the model of the language built-ins:
  \<^item> numbers are exact decimals \<open>m / 10 ^ d\<close>, where JavaScript rounds to
    binary64; the two agree on the decimals of \<open>binary64_safe\<close> below, and the
    theorems that depend on the value of a number assume it;
  \<^item> strings are byte strings (the UTF-8 form of the text); the length and the
    indexing of a string go by its UTF-16 code units, as in JavaScript;
    \<^verbatim>\<open>JSON.stringify\<close> writes a lone surrogate as it is, where JavaScript writes
    an escape;
  \<^item> the built-in prototypes are as the language defines them, and property
    reads find own properties only: the members that objects, arrays, strings,
    numbers and booleans inherit (\<^verbatim>\<open>toString\<close>, \<^verbatim>\<open>constructor\<close>, the getter of
    \<^verbatim>\<open>__proto__\<close>, ...) read as \<^verbatim>\<open>undefined\<close>; the theorems that depend on a read
    keep to keys that are none of the names \<open>builtin_names\<close> below, or to
    properties that the value has;
  \<^item> strings and arrays have no largest length.
\<close>

datatype js_error = SyntaxError | TypeError | RangeError

datatype 'a completion = Normal 'a | Throw js_error

datatype jsnumber = Dec int nat

datatype json =
    JNull
  | JBool bool
  | JNumber jsnumber
  | JString string
  | JArray "json list"
  | JObject "(string \<times> json) list"

datatype segment = Key string | Index nat

subsection \<open>Characters and digits\<close>

definition is_digit :: "char \<Rightarrow> bool" where
  "is_digit c \<longleftrightarrow> 48 \<le> (of_char c :: nat) \<and> (of_char c :: nat) \<le> 57"

definition digit_val :: "char \<Rightarrow> nat" where
  "digit_val c = of_char c - 48"

definition digit_char :: "nat \<Rightarrow> char" where
  "digit_char n = char_of (48 + n)"

text \<open>
  Quantities that can be large are integers: the evaluation of a natural number
  is unary.
\<close>

function digits_of :: "int \<Rightarrow> string" where
  "digits_of n =
     (if n < 10 then [digit_char (nat n)]
      else digits_of (n div 10) @ [digit_char (nat (n mod 10))])"
  by pat_completeness auto
termination
  by (relation "measure nat") auto

declare digits_of.simps [simp del]

definition int_of_digits :: "string \<Rightarrow> int" where
  "int_of_digits ds = foldl (\<lambda>a c. 10 * a + int (digit_val c)) 0 ds"

definition is_ws :: "char \<Rightarrow> bool" where
  "is_ws c \<longleftrightarrow> c = CHR '' '' \<or> c = CHR 0x09 \<or> c = CHR 0x0A \<or> c = CHR 0x0D"

definition hex_val :: "char \<Rightarrow> nat option" where
  "hex_val c =
     (let n = (of_char c :: nat) in
      if 48 \<le> n \<and> n \<le> 57 then Some (n - 48)
      else if 97 \<le> n \<and> n \<le> 102 then Some (n - 87)
      else if 65 \<le> n \<and> n \<le> 70 then Some (n - 55)
      else None)"

definition hex_char :: "nat \<Rightarrow> char" where
  "hex_char n = (if n < 10 then char_of (48 + n) else char_of (87 + n))"

definition hex4 :: "char \<Rightarrow> char \<Rightarrow> char \<Rightarrow> char \<Rightarrow> nat option" where
  "hex4 a b c d =
     (case (hex_val a, hex_val b, hex_val c, hex_val d) of
        (Some w, Some x, Some y, Some z) \<Rightarrow> Some (4096 * w + 256 * x + 16 * y + z)
      | _ \<Rightarrow> None)"

definition utf8_encode :: "nat \<Rightarrow> string" where
  "utf8_encode cp =
     (if cp < 0x80 then [char_of cp]
      else if cp < 0x800 then [char_of (0xC0 + cp div 64), char_of (0x80 + cp mod 64)]
      else if cp < 0x10000 then
        [char_of (0xE0 + cp div 4096), char_of (0x80 + (cp div 64) mod 64), char_of (0x80 + cp mod 64)]
      else
        [char_of (0xF0 + cp div 262144), char_of (0x80 + (cp div 4096) mod 64),
         char_of (0x80 + (cp div 64) mod 64), char_of (0x80 + cp mod 64)])"

subsection \<open>Number to string\<close>

text \<open>
  \<^verbatim>\<open>Number::toString\<close> of ECMA-262 on the decimal digits of the value: \<open>k\<close>
  significant digits, the decimal point after \<open>n\<close> of them.
\<close>

definition strip_zeros :: "string \<Rightarrow> string" where
  "strip_zeros ds = rev (dropWhile (\<lambda>c. c = CHR ''0'') (rev ds))"

definition number_to_string :: "jsnumber \<Rightarrow> string" where
  "number_to_string x =
     (case x of Dec m d \<Rightarrow>
        if m = 0 then ''0''
        else
          let ds = digits_of \<bar>m\<bar>;
              sig = strip_zeros ds;
              k = int (length sig);
              n = int (length ds) - int d;
              body =
                (if k \<le> n \<and> n \<le> 21 then sig @ replicate (nat (n - k)) (CHR ''0'')
                 else if 0 < n \<and> n \<le> 21 then take (nat n) sig @ ''.'' @ drop (nat n) sig
                 else if - 6 < n \<and> n \<le> 0 then ''0.'' @ replicate (nat (- n)) (CHR ''0'') @ sig
                 else
                   (if k = 1 then sig else hd sig # ''.'' @ tl sig)
                   @ ''e'' @ (if n - 1 < 0 then ''-'' else ''+'') @ digits_of \<bar>n - 1\<bar>)
          in (if m < 0 then ''-'' else []) @ body)"

subsection \<open>JSON.parse\<close>

datatype token =
    TLBrace | TRBrace | TLBrack | TRBrack | TColon | TComma
  | TString string | TNumber jsnumber | TTrue | TFalse | TNull

text \<open>The value \<open>m * 10 ^ e\<close> in normal form: no trailing zero after the point.\<close>

fun strip_frac :: "int \<Rightarrow> nat \<Rightarrow> jsnumber" where
  "strip_frac m 0 = Dec m 0"
| "strip_frac m (Suc d) = (if m mod 10 = 0 then strip_frac (m div 10) d else Dec m (Suc d))"

definition mk_number :: "int \<Rightarrow> int \<Rightarrow> jsnumber" where
  "mk_number m e = (if 0 \<le> e then Dec (m * 10 ^ nat e) 0 else strip_frac m (nat (- e)))"

definition lex_frac :: "string \<Rightarrow> (string \<times> string) option" where
  "lex_frac cs =
     (case cs of
        c # cs' \<Rightarrow>
          if c = CHR ''.'' then
            (let fp = takeWhile is_digit cs' in
             if fp = [] then None else Some (fp, dropWhile is_digit cs'))
          else Some ([], cs)
      | [] \<Rightarrow> Some ([], cs))"

definition lex_exp :: "string \<Rightarrow> (int \<times> string) option" where
  "lex_exp cs =
     (case cs of
        c # cs' \<Rightarrow>
          if c = CHR ''e'' \<or> c = CHR ''E'' then
            (let neg = (cs' \<noteq> [] \<and> hd cs' = CHR ''-'');
                 cs'' = (if cs' \<noteq> [] \<and> (hd cs' = CHR ''-'' \<or> hd cs' = CHR ''+'') then tl cs' else cs');
                 ep = takeWhile is_digit cs''
             in if ep = [] then None
                else Some ((if neg then - int_of_digits ep else int_of_digits ep),
                           dropWhile is_digit cs''))
          else Some (0, cs)
      | [] \<Rightarrow> Some (0, cs))"

definition lex_number :: "string \<Rightarrow> (jsnumber \<times> string) option" where
  "lex_number cs =
     (let neg = (cs \<noteq> [] \<and> hd cs = CHR ''-'');
          cs1 = (if neg then tl cs else cs);
          ip = takeWhile is_digit cs1;
          cs2 = dropWhile is_digit cs1
      in if ip = [] \<or> (hd ip = CHR ''0'' \<and> length ip \<noteq> 1) then None
         else
           (case lex_frac cs2 of
              None \<Rightarrow> None
            | Some (fp, cs3) \<Rightarrow>
                (case lex_exp cs3 of
                   None \<Rightarrow> None
                 | Some (e, cs4) \<Rightarrow>
                     (let m = int_of_digits (ip @ fp)
                      in Some (mk_number (if neg then - m else m) (e - int (length fp)), cs4)))))"

definition simple_escape :: "char \<Rightarrow> char option" where
  "simple_escape e =
     (if e = CHR 0x22 then Some (CHR 0x22)
      else if e = CHR 0x5C then Some (CHR 0x5C)
      else if e = CHR ''/'' then Some (CHR ''/'')
      else if e = CHR ''b'' then Some (CHR 0x08)
      else if e = CHR ''f'' then Some (CHR 0x0C)
      else if e = CHR ''n'' then Some (CHR 0x0A)
      else if e = CHR ''r'' then Some (CHR 0x0D)
      else if e = CHR ''t'' then Some (CHR 0x09)
      else None)"

definition prepend :: "string \<Rightarrow> (string \<times> string) option \<Rightarrow> (string \<times> string) option" where
  "prepend p r = (case r of None \<Rightarrow> None | Some (s, rest) \<Rightarrow> Some (p @ s, rest))"

text \<open>
  The low half of a surrogate pair, when the text goes on with a \<^verbatim>\<open>\u\<close> escape in
  \<open>DC00..DFFF\<close>.
\<close>

definition low_surrogate :: "string \<Rightarrow> nat option" where
  "low_surrogate cs =
     (if 6 \<le> length cs \<and> cs ! 0 = CHR 0x5C \<and> cs ! 1 = CHR ''u'' then
        (case hex4 (cs ! 2) (cs ! 3) (cs ! 4) (cs ! 5) of
           None \<Rightarrow> None
         | Some lo \<Rightarrow> if 0xDC00 \<le> lo \<and> lo < 0xE000 then Some lo else None)
      else None)"

text \<open>The characters of a string literal after its opening quote, and the rest.\<close>

fun lex_string :: "string \<Rightarrow> (string \<times> string) option" where
  "lex_string [] = None"
| "lex_string (c # cs) =
     (if c = CHR 0x22 then Some ([], cs)
      else if c = CHR 0x5C then
        (case cs of
           [] \<Rightarrow> None
         | e # cs' \<Rightarrow>
             if e = CHR ''u'' then
               (if length cs' < 4 then None
                else
                  (case hex4 (cs' ! 0) (cs' ! 1) (cs' ! 2) (cs' ! 3) of
                     None \<Rightarrow> None
                   | Some cu \<Rightarrow>
                       (case (if 0xD800 \<le> cu \<and> cu < 0xDC00 then low_surrogate (drop 4 cs') else None) of
                          Some lo \<Rightarrow>
                            prepend (utf8_encode (0x10000 + (cu - 0xD800) * 1024 + (lo - 0xDC00)))
                              (lex_string (drop 10 cs'))
                        | None \<Rightarrow> prepend (utf8_encode cu) (lex_string (drop 4 cs')))))
             else
               (case simple_escape e of
                  None \<Rightarrow> None
                | Some ch \<Rightarrow> prepend [ch] (lex_string cs')))
      else if (of_char c :: nat) < 0x20 then None
      else prepend [c] (lex_string cs))"

lemma prepend_rest: "prepend p r = Some (s, rest) \<Longrightarrow> \<exists>s'. r = Some (s', rest)"
  by (auto simp: prepend_def split: option.splits)

lemma lex_string_length: "lex_string cs = Some (s, rest) \<Longrightarrow> length rest < length cs"
proof (induction cs arbitrary: s rest rule: lex_string.induct)
  case 1
  then show ?case by simp
next
  case (2 c cs)
  show ?case
    using "2.prems" "2.IH"
    apply (auto split: if_splits list.splits option.splits dest!: prepend_rest)
        apply force+
    done
qed


lemma lex_frac_length: "lex_frac cs = Some (fp, rest) \<Longrightarrow> length rest \<le> length cs"
  by (auto simp: lex_frac_def Let_def le_SucI length_dropWhile_le split: list.splits if_splits)

lemma lex_exp_length: "lex_exp cs = Some (e, rest) \<Longrightarrow> length rest \<le> length cs"
proof -
  have d: "length (dropWhile is_digit xs) \<le> length xs" for xs
    by (rule length_dropWhile_le)
  have t: "length (dropWhile is_digit (tl xs)) \<le> length xs" for xs
    using d [of "tl xs"] by (cases xs) auto
  assume "lex_exp cs = Some (e, rest)"
  then show ?thesis
    using d t by (auto simp: lex_exp_def Let_def le_SucI split: list.splits if_splits)
qed

lemma dropWhile_digit_shorter:
  "takeWhile is_digit cs \<noteq> [] \<Longrightarrow> length (dropWhile is_digit cs) < length cs"
  by (cases cs) (auto simp: le_imp_less_Suc length_dropWhile_le split: if_splits)


lemma lex_number_length: "lex_number cs = Some (x, rest) \<Longrightarrow> length rest < length cs"
proof -
  assume a: "lex_number cs = Some (x, rest)"
  define cs1 where "cs1 = (if cs \<noteq> [] \<and> hd cs = CHR ''-'' then tl cs else cs)"
  define cs2 where "cs2 = dropWhile is_digit cs1"
  have unf: "lex_number cs =
      (if takeWhile is_digit cs1 = [] \<or> (hd (takeWhile is_digit cs1) = CHR ''0'' \<and> length (takeWhile is_digit cs1) \<noteq> 1) then None
       else (case lex_frac cs2 of None \<Rightarrow> None
            | Some (fp, cs3) \<Rightarrow> (case lex_exp cs3 of None \<Rightarrow> None
               | Some (e, cs4) \<Rightarrow> Some (mk_number (if cs \<noteq> [] \<and> hd cs = CHR ''-'' then - int_of_digits (takeWhile is_digit cs1 @ fp) else int_of_digits (takeWhile is_digit cs1 @ fp)) (e - int (length fp)), cs4))))"
    unfolding lex_number_def cs1_def cs2_def Let_def by simp
  have ne: "takeWhile is_digit cs1 \<noteq> []"
    using a unfolding unf by (simp split: if_splits)
  obtain fp cs3 where f: "lex_frac cs2 = Some (fp, cs3)"
    using a ne unfolding unf by (simp split: if_splits option.splits prod.splits)
  obtain e where e: "lex_exp cs3 = Some (e, rest)"
    using a ne f unfolding unf by (simp split: if_splits option.splits prod.splits)
  have "length rest \<le> length cs2"
    using lex_frac_length [OF f] lex_exp_length [OF e] by simp
  also have "\<dots> < length cs1" unfolding cs2_def using dropWhile_digit_shorter [OF ne] .
  also have "\<dots> \<le> length cs" by (simp add: cs1_def)
  finally show ?thesis .
qed
definition cons_tok :: "token \<Rightarrow> token list option \<Rightarrow> token list option" where
  "cons_tok t r = (case r of None \<Rightarrow> None | Some ts \<Rightarrow> Some (t # ts))"

function lexer :: "string \<Rightarrow> token list option" where
  "lexer [] = Some []"
| "lexer (c # cs) =
     (if is_ws c then lexer cs
      else if c = CHR ''{'' then cons_tok TLBrace (lexer cs)
      else if c = CHR ''}'' then cons_tok TRBrace (lexer cs)
      else if c = CHR ''['' then cons_tok TLBrack (lexer cs)
      else if c = CHR '']'' then cons_tok TRBrack (lexer cs)
      else if c = CHR '':'' then cons_tok TColon (lexer cs)
      else if c = CHR '','' then cons_tok TComma (lexer cs)
      else if c = CHR 0x22 then
        (case lex_string cs of
           None \<Rightarrow> None
         | Some (s, rest) \<Rightarrow> cons_tok (TString s) (lexer rest))
      else if c = CHR ''-'' \<or> is_digit c then
        (case lex_number (c # cs) of
           None \<Rightarrow> None
         | Some (x, rest) \<Rightarrow> cons_tok (TNumber x) (lexer rest))
      else if take 4 (c # cs) = ''true'' then cons_tok TTrue (lexer (drop 3 cs))
      else if take 5 (c # cs) = ''false'' then cons_tok TFalse (lexer (drop 4 cs))
      else if take 4 (c # cs) = ''null'' then cons_tok TNull (lexer (drop 3 cs))
      else None)"
  by pat_completeness auto
termination
proof (relation "measure length")
  fix c cs s rest x2 
  assume "lex_string cs = Some x2" "(s, rest) = x2"
  then show "(rest, c # cs) \<in> measure length"
    using lex_string_length [of cs s rest] by simp
next
  fix c cs x rest x2
  assume "lex_number (c # cs) = Some x2" "(x, rest) = x2"
  then show "(rest, c # cs) \<in> measure length"
    using lex_number_length [of "c # cs" x rest] by simp
qed simp_all

datatype frame = FArr "json list" | FObj "(string \<times> json) list" string

declare lexer.simps [simp del]

text \<open>
  An array index is a canonical numeric string below \<open>2 ^ 32 - 1\<close>.
\<close>

definition index_of_key :: "string \<Rightarrow> int option" where
  "index_of_key k =
     (if k \<noteq> [] \<and> list_all is_digit k \<and> (hd k \<noteq> CHR ''0'' \<or> length k = 1)
         \<and> int_of_digits k < 4294967295
      then Some (int_of_digits k) else None)"

text \<open>
  \<^verbatim>\<open>CreateDataProperty\<close> on an ordinary object: an existing key keeps its place,
  a new array-index key goes before the first key that is no smaller array
  index, any other new key goes last (the order of \<^verbatim>\<open>OrdinaryOwnPropertyKeys\<close>).
\<close>

fun obj_insert :: "(string \<times> json) list \<Rightarrow> string \<Rightarrow> json \<Rightarrow> (string \<times> json) list" where
  "obj_insert [] k v = [(k, v)]"
| "obj_insert ((k', v') # ms) k v =
     (case index_of_key k of
        None \<Rightarrow> (k', v') # obj_insert ms k v
      | Some i \<Rightarrow>
          (case index_of_key k' of
             None \<Rightarrow> (k, v) # (k', v') # ms
           | Some i' \<Rightarrow> if i < i' then (k, v) # (k', v') # ms else (k', v') # obj_insert ms k v))"

fun obj_update :: "(string \<times> json) list \<Rightarrow> string \<Rightarrow> json \<Rightarrow> (string \<times> json) list" where
  "obj_update [] k v = []"
| "obj_update ((k', v') # ms) k v = (if k' = k then (k, v) # ms else (k', v') # obj_update ms k v)"

definition obj_define :: "(string \<times> json) list \<Rightarrow> string \<Rightarrow> json \<Rightarrow> (string \<times> json) list" where
  "obj_define ms k v = (if k \<in> fst ` set ms then obj_update ms k v else obj_insert ms k v)"

text \<open>
  The parser runs over the tokens with a stack of the containers that are
  open: an array with its elements so far (last first), an object with its
  members so far and the key that waits for its value.
\<close>

fun parse_value :: "frame list \<Rightarrow> token list \<Rightarrow> json option"
  and parse_after :: "json \<Rightarrow> frame list \<Rightarrow> token list \<Rightarrow> json option" where
  "parse_value st [] = None"
| "parse_value st (t # ts) =
     (case t of
        TNull \<Rightarrow> parse_after JNull st ts
      | TTrue \<Rightarrow> parse_after (JBool True) st ts
      | TFalse \<Rightarrow> parse_after (JBool False) st ts
      | TNumber x \<Rightarrow> parse_after (JNumber x) st ts
      | TString s \<Rightarrow> parse_after (JString s) st ts
      | TLBrack \<Rightarrow>
          (case ts of
             TRBrack # ts' \<Rightarrow> parse_after (JArray []) st ts'
           | _ \<Rightarrow> parse_value (FArr [] # st) ts)
      | TLBrace \<Rightarrow>
          (case ts of
             TRBrace # ts' \<Rightarrow> parse_after (JObject []) st ts'
           | TString k # TColon # ts' \<Rightarrow> parse_value (FObj [] k # st) ts'
           | _ \<Rightarrow> None)
      | _ \<Rightarrow> None)"
| "parse_after v [] ts = (if ts = [] then Some v else None)"
| "parse_after v (FArr es # st) ts =
     (case ts of
        TComma # ts' \<Rightarrow> parse_value (FArr (v # es) # st) ts'
      | TRBrack # ts' \<Rightarrow> parse_after (JArray (rev (v # es))) st ts'
      | _ \<Rightarrow> None)"
| "parse_after v (FObj ms k # st) ts =
     (case ts of
        TComma # TString k' # TColon # ts' \<Rightarrow> parse_value (FObj (obj_define ms k v) k' # st) ts'
      | TRBrace # ts' \<Rightarrow> parse_after (JObject (obj_define ms k v)) st ts'
      | _ \<Rightarrow> None)"

definition JSON_parse :: "string \<Rightarrow> json completion" where
  "JSON_parse text =
     (case lexer text of
        None \<Rightarrow> Throw SyntaxError
      | Some ts \<Rightarrow>
          (case parse_value [] ts of
             None \<Rightarrow> Throw SyntaxError
           | Some v \<Rightarrow> Normal v))"

subsection \<open>JSON.stringify with an indentation of two spaces\<close>

definition escape_char :: "char \<Rightarrow> string" where
  "escape_char c =
     (if c = CHR 0x22 then [CHR 0x5C, CHR 0x22]
      else if c = CHR 0x5C then [CHR 0x5C, CHR 0x5C]
      else if c = CHR 0x08 then [CHR 0x5C, CHR ''b'']
      else if c = CHR 0x0C then [CHR 0x5C, CHR ''f'']
      else if c = CHR 0x0A then [CHR 0x5C, CHR ''n'']
      else if c = CHR 0x0D then [CHR 0x5C, CHR ''r'']
      else if c = CHR 0x09 then [CHR 0x5C, CHR ''t'']
      else if (of_char c :: nat) < 0x20 then
        [CHR 0x5C, CHR ''u'', CHR ''0'', CHR ''0'', hex_char (of_char c div 16), hex_char (of_char c mod 16)]
      else [c])"

definition quote :: "string \<Rightarrow> string" where
  "quote s = CHR 0x22 # concat (map escape_char s) @ [CHR 0x22]"

definition newline :: "nat \<Rightarrow> string" where
  "newline i = CHR 0x0A # replicate (2 * i) (CHR '' '')"

fun serialize :: "nat \<Rightarrow> json \<Rightarrow> string"
  and serialize_elems :: "nat \<Rightarrow> json list \<Rightarrow> string"
  and serialize_members :: "nat \<Rightarrow> (string \<times> json) list \<Rightarrow> string" where
  "serialize i JNull = ''null''"
| "serialize i (JBool b) = (if b then ''true'' else ''false'')"
| "serialize i (JNumber x) = number_to_string x"
| "serialize i (JString s) = quote s"
| "serialize i (JArray xs) =
     (if xs = [] then ''[]''
      else ''['' @ newline (Suc i) @ serialize_elems (Suc i) xs @ newline i @ '']'')"
| "serialize i (JObject ms) =
     (if ms = [] then ''{}''
      else ''{'' @ newline (Suc i) @ serialize_members (Suc i) ms @ newline i @ ''}'')"
| "serialize_elems i [] = []"
| "serialize_elems i (x # xs) =
     serialize i x @ (if xs = [] then [] else '','' @ newline i @ serialize_elems i xs)"
| "serialize_members i [] = []"
| "serialize_members i (m # ms) =
     quote (fst m) @ '': '' @ serialize i (snd m)
     @ (if ms = [] then [] else '','' @ newline i @ serialize_members i ms)"

definition JSON_stringify :: "json \<Rightarrow> string" where
  "JSON_stringify v = serialize 0 v"



section \<open>Property access\<close>

text \<open>\<^verbatim>\<open>ToPropertyKey\<close> of a path segment: a number is its decimal string.\<close>

definition key_of :: "segment \<Rightarrow> string" where
  "key_of seg = (case seg of Key k \<Rightarrow> k | Index n \<Rightarrow> number_to_string (Dec (int n) 0))"

text \<open>
  The built-in objects are part of the language and not of the source.  These
  are the names of the properties that the prototypes of objects, arrays,
  strings, numbers and booleans define (ECMA-262 with its Annex B), and
  \<^verbatim>\<open>length\<close>.  A read or an assignment under one of these names can reach a
  built-in object, a getter or a setter; the model of the reads below covers
  the names that are none of these.
\<close>

definition builtin_names :: "string list" where
  "builtin_names =
    [''constructor'', ''hasOwnProperty'', ''isPrototypeOf'', ''propertyIsEnumerable'',
     ''toLocaleString'', ''toString'', ''valueOf'', ''__proto__'', ''__defineGetter__'',
     ''__defineSetter__'', ''__lookupGetter__'', ''__lookupSetter__'', ''at'', ''concat'',
     ''copyWithin'', ''entries'', ''every'', ''fill'', ''filter'', ''find'', ''findIndex'',
     ''findLast'', ''findLastIndex'', ''flat'', ''flatMap'', ''forEach'', ''includes'',
     ''indexOf'', ''join'', ''keys'', ''lastIndexOf'', ''map'', ''pop'', ''push'',
     ''reduce'', ''reduceRight'', ''reverse'', ''shift'', ''slice'', ''some'', ''sort'',
     ''splice'', ''toReversed'', ''toSorted'', ''toSpliced'', ''unshift'', ''values'',
     ''with'', ''charAt'', ''charCodeAt'', ''codePointAt'', ''endsWith'', ''isWellFormed'',
     ''localeCompare'', ''match'', ''matchAll'', ''normalize'', ''padEnd'', ''padStart'',
     ''repeat'', ''replace'', ''replaceAll'', ''search'', ''split'', ''startsWith'',
     ''substring'', ''toLocaleLowerCase'', ''toLocaleUpperCase'', ''toLowerCase'',
     ''toUpperCase'', ''toWellFormed'', ''trim'', ''trimEnd'', ''trimStart'', ''substr'',
     ''anchor'', ''big'', ''blink'', ''bold'', ''fixed'', ''fontcolor'', ''fontsize'',
     ''italics'', ''link'', ''small'', ''strike'', ''sub'', ''sup'', ''trimLeft'',
     ''trimRight'', ''toExponential'', ''toFixed'', ''toPrecision'', ''length'']"

definition builtin_name :: "string \<Rightarrow> bool" where
  "builtin_name k \<longleftrightarrow> k \<in> set builtin_names"

text \<open>
  A JavaScript number is a binary64 value, and the model has the exact decimal.
  The two agree on the decimals of at most 15 significant digits whose
  magnitude is between \<open>10 ^ - 300\<close> and \<open>10 ^ 15\<close>: such a literal and the digits
  that \<^verbatim>\<open>Number::toString\<close> gives for its binary64 value are the same decimal.
  The two zeros are one value, as \<^verbatim>\<open>===\<close> has it.
\<close>

definition binary64_safe :: "jsnumber \<Rightarrow> bool" where
  "binary64_safe x \<longleftrightarrow> (case x of Dec m d \<Rightarrow> \<bar>m\<bar> < 1000000000000000 \<and> d \<le> 300)"

fun safe_numbers :: "json \<Rightarrow> bool" where
  "safe_numbers (JNumber x) = binary64_safe x"
| "safe_numbers (JArray xs) = (\<forall>x \<in> set xs. safe_numbers x)"
| "safe_numbers (JObject ms) = (\<forall>m \<in> set ms. safe_numbers (snd m))"
| "safe_numbers _ = True"

definition safe_index :: "segment \<Rightarrow> bool" where
  "safe_index seg \<longleftrightarrow> (case seg of Index n \<Rightarrow> int n < 1000000000000000 | Key k \<Rightarrow> True)"

text \<open>
  A segment on which the model of the reads is exact: its key is no built-in
  name, and as a number it is below \<open>10 ^ 15\<close>.
\<close>

definition plain_segment :: "segment \<Rightarrow> bool" where
  "plain_segment seg \<longleftrightarrow> \<not> builtin_name (key_of seg) \<and> safe_index seg"

text \<open>
  The UTF-16 code units of a string, from its UTF-8 bytes: JavaScript counts
  and indexes a string by them.  A code point above \<open>FFFF\<close> is two units.
\<close>

definition utf16_step :: "nat list \<times> nat \<times> nat \<Rightarrow> char \<Rightarrow> nat list \<times> nat \<times> nat" where
  "utf16_step st c =
     (case st of (units, need, cp) \<Rightarrow>
        let b = (of_char c :: nat) in
        if need = 0 then
          (if b < 0xC0 then (units @ [b], 0, 0)
           else if b < 0xE0 then (units, 1, b - 0xC0)
           else if b < 0xF0 then (units, 2, b - 0xE0)
           else (units, 3, b - 0xF0))
        else
          (let cp' = cp * 64 + (b - 0x80) in
           if need = 1 then
             (if cp' < 0x10000 then (units @ [cp'], 0, 0)
              else (units @ [0xD800 + (cp' - 0x10000) div 1024, 0xDC00 + (cp' - 0x10000) mod 1024], 0, 0))
           else (units, need - 1, cp')))"

definition utf16_units :: "string \<Rightarrow> nat list" where
  "utf16_units s = fst (foldl utf16_step ([], 0, 0) s)"

text \<open>
  The read \<^verbatim>\<open>current[seg]\<close> of an own property of a value; \<open>None\<close> is
  \<^verbatim>\<open>undefined\<close>.  Reading a property of \<^verbatim>\<open>null\<close> throws a TypeError.  The read is
  that of the source when the key is no built-in name, or when the value has
  the key as an own property.
\<close>

definition js_get :: "json \<Rightarrow> segment \<Rightarrow> json option completion" where
  "js_get current seg =
     (case current of
        JNull \<Rightarrow> Throw TypeError
      | JObject ms \<Rightarrow> Normal (map_of ms (key_of seg))
      | JArray xs \<Rightarrow>
          (case index_of_key (key_of seg) of
             Some i \<Rightarrow> Normal (if i < int (length xs) then Some (xs ! nat i) else None)
           | None \<Rightarrow>
               Normal (if key_of seg = ''length'' then Some (JNumber (Dec (int (length xs)) 0))
                       else None))
      | JString s \<Rightarrow>
          (case index_of_key (key_of seg) of
             Some i \<Rightarrow>
               Normal (if i < int (length (utf16_units s))
                       then Some (JString (utf8_encode (utf16_units s ! nat i))) else None)
           | None \<Rightarrow>
               Normal (if key_of seg = ''length''
                       then Some (JNumber (Dec (int (length (utf16_units s))) 0)) else None))
      | _ \<Rightarrow> Normal None)"

text \<open>
  The assignment \<^verbatim>\<open>obj[k] = v\<close> on an ordinary object, whose state is its own
  members and whether a lookup of \<^verbatim>\<open>__proto__\<close> along its prototype chain still
  finds the accessor of \<^verbatim>\<open>Object.prototype\<close>.  While it does and the object has
  no own member \<^verbatim>\<open>__proto__\<close>, the assignment to \<^verbatim>\<open>__proto__\<close> calls the setter: it
  creates no own member, and an object or \<^verbatim>\<open>null\<close> becomes the prototype.  After
  that the accessor is found no more when the prototype is \<^verbatim>\<open>null\<close> or an object
  with an own member \<^verbatim>\<open>__proto__\<close>, and the next assignment creates an own member.
  The value \<^verbatim>\<open>undefined\<close> (\<open>None\<close>) makes a member that is not serialized: the
  members are those that \<^verbatim>\<open>JSON.stringify\<close> writes.
\<close>

definition proto_setter :: "json option \<Rightarrow> bool" where
  "proto_setter v =
     (case v of
        Some JNull \<Rightarrow> False
      | Some (JObject ms) \<Rightarrow> ''__proto__'' \<notin> fst ` set ms
      | _ \<Rightarrow> True)"

definition obj_assign ::
  "bool \<times> (string \<times> json) list \<Rightarrow> string \<Rightarrow> json option \<Rightarrow> bool \<times> (string \<times> json) list" where
  "obj_assign obj k v =
     (case obj of (accessor, ms) \<Rightarrow>
        if k = ''__proto__'' \<and> k \<notin> fst ` set ms \<and> accessor then (proto_setter v, ms)
        else
          (accessor,
           (case v of
              Some x \<Rightarrow> obj_define ms k x
            | None \<Rightarrow> filter (\<lambda>m. fst m \<noteq> k) ms)))"

text \<open>
  The assignment \<^verbatim>\<open>arr.length = v\<close>.  The numeric conversion of a string or of
  an array is not modelled: such a value is taken as not convertible.  The
  theorems below keep to paths without the segment \<^verbatim>\<open>length\<close>.
\<close>

definition array_set_length :: "json list \<Rightarrow> json option \<Rightarrow> json completion" where
  "array_set_length xs v =
     (case v of
        Some (JNumber (Dec m d)) \<Rightarrow>
          if d = 0 \<and> 0 \<le> m \<and> m < 4294967296 then
            Normal (JArray (take (nat m) xs @ replicate (nat m - length xs) JNull))
          else Throw RangeError
      | Some JNull \<Rightarrow> Normal (JArray [])
      | Some (JBool b) \<Rightarrow>
          Normal (JArray (if b then take 1 xs @ replicate (1 - length xs) JNull else []))
      | _ \<Rightarrow> Throw RangeError)"

text \<open>
  The assignment \<^verbatim>\<open>current[seg] = v\<close> in strict mode, where \<open>v\<close> is a JSON value
  or \<^verbatim>\<open>undefined\<close> (\<open>None\<close>); the result is \<open>current\<close> after the assignment, as
  \<^verbatim>\<open>JSON.stringify\<close> writes it.  An array grows to hold a new index; its holes
  and an element \<^verbatim>\<open>undefined\<close> are serialised as \<^verbatim>\<open>null\<close>; a property of an array
  whose key is no index is not serialised, so it leaves the value as it was.
  Creating a property on a primitive value throws a TypeError; the assignment
  to \<^verbatim>\<open>__proto__\<close> on a number, a string or a boolean calls the setter, which does
  nothing there.
\<close>

definition js_set :: "json \<Rightarrow> segment \<Rightarrow> json option \<Rightarrow> json completion" where
  "js_set current seg v =
     (case current of
        JObject ms \<Rightarrow> Normal (JObject (snd (obj_assign (True, ms) (key_of seg) v)))
      | JArray xs \<Rightarrow>
          (case index_of_key (key_of seg) of
             Some i \<Rightarrow>
               (let x = (case v of Some x \<Rightarrow> x | None \<Rightarrow> JNull) in
                Normal (JArray (if i < int (length xs) then xs[nat i := x]
                                else xs @ replicate (nat i - length xs) JNull @ [x])))
           | None \<Rightarrow> if key_of seg = ''length'' then array_set_length xs v else Normal (JArray xs))
      | JNull \<Rightarrow> Throw TypeError
      | _ \<Rightarrow> if key_of seg = ''__proto__'' then Normal current else Throw TypeError)"


text \<open>
  The child that \<^verbatim>\<open>current[seg]\<close> has read is an object of the tree, and the
  assignment at the end of the walk changes it in place.  In the model the
  changed child goes back to where it was read.
\<close>

definition put_back :: "json \<Rightarrow> segment \<Rightarrow> json \<Rightarrow> json" where
  "put_back current seg child =
     (case current of
        JObject ms \<Rightarrow> JObject (obj_update ms (key_of seg) child)
      | JArray xs \<Rightarrow>
          (case index_of_key (key_of seg) of
             Some i \<Rightarrow> JArray (if i < int (length xs) then xs[nat i := child] else xs)
           | None \<Rightarrow> current)
      | _ \<Rightarrow> current)"

text \<open>
  The walk from \<open>current\<close> over \<open>seg\<close> and all of \<open>segs\<close> but the last, and the
  assignment of \<open>v\<close> at the last segment, as a function of the tree: the result
  is \<open>current\<close> after the assignment.  A read that gives \<^verbatim>\<open>undefined\<close> makes the
  next step, a read or the assignment, throw a TypeError.
\<close>

fun js_assign :: "json \<Rightarrow> segment \<Rightarrow> segment list \<Rightarrow> json option \<Rightarrow> json completion" where
  "js_assign current seg [] v = js_set current seg v"
| "js_assign current seg (seg' # segs) v =
     (case js_get current seg of
        Throw e \<Rightarrow> Throw e
      | Normal None \<Rightarrow> Throw TypeError
      | Normal (Some child) \<Rightarrow>
          (case js_assign child seg' segs v of
             Throw e \<Rightarrow> Throw e
           | Normal child' \<Rightarrow> Normal (put_back current seg child')))"

text \<open>
  \<^verbatim>\<open>ToString\<close> of a value, as a template literal applies it.  An array is the
  join of its elements, among which \<^verbatim>\<open>null\<close> is the empty string; an object is
  \<^verbatim>\<open>[object Object]\<close>, unless it has an own \<^verbatim>\<open>toString\<close> property, which is no
  function, and the conversion throws.
\<close>

fun js_ToString :: "json \<Rightarrow> string completion"
  and js_join :: "json list \<Rightarrow> string completion" where
  "js_ToString JNull = Normal ''null''"
| "js_ToString (JBool b) = Normal (if b then ''true'' else ''false'')"
| "js_ToString (JNumber x) = Normal (number_to_string x)"
| "js_ToString (JString s) = Normal s"
| "js_ToString (JArray xs) = js_join xs"
| "js_ToString (JObject ms) =
     (if ''toString'' \<in> fst ` set ms then Throw TypeError else Normal ''[object Object]'')"
| "js_join [] = Normal []"
| "js_join (x # xs) =
     (case (if x = JNull then Normal [] else js_ToString x) of
        Throw e \<Rightarrow> Throw e
      | Normal s \<Rightarrow>
          (if xs = [] then Normal s
           else (case js_join xs of Throw e \<Rightarrow> Throw e | Normal r \<Rightarrow> Normal (s @ '','' @ r))))"

section \<open>The node modal\<close>

text \<open>
  Modelled from the spec: the types \<^verbatim>\<open>NodeData\<close> and its rows come from
  \<^verbatim>\<open>types/graph\<close>, which is not part of the source file.  A row has an optional
  key, a value and a type tag; a node has an identifier, its rows and its path.
\<close>

record NodeRow =
  row_key :: "string option"
  row_value :: json
  row_type :: string

record NodeData =
  node_id :: string
  node_text :: "NodeRow list"
  node_path :: "segment list option"

text \<open>The truth value of \<^verbatim>\<open>row.key\<close>: a key that is absent or empty is falsy.\<close>

definition truthy :: "string option \<Rightarrow> bool" where
  "truthy k \<longleftrightarrow> (case k of None \<Rightarrow> False | Some s \<Rightarrow> s \<noteq> [])"

text \<open>
  The callback of \<^verbatim>\<open>forEach\<close> on the object \<open>obj\<close>, which starts as \<^verbatim>\<open>{}\<close>: no
  members, and the accessor \<^verbatim>\<open>__proto__\<close> in reach.
\<close>

definition add_row ::
  "bool \<times> (string \<times> json) list \<Rightarrow> NodeRow \<Rightarrow> bool \<times> (string \<times> json) list" where
  "add_row obj row =
     (if row_type row \<noteq> ''array'' \<and> row_type row \<noteq> ''object'' then
        (case row_key row of
           None \<Rightarrow> obj
         | Some k \<Rightarrow> if k \<noteq> [] then obj_assign obj k (Some (row_value row)) else obj)
      else obj)"

definition normalizeNodeData :: "NodeRow list option \<Rightarrow> string completion" where
  "normalizeNodeData nodeRows =
     (case nodeRows of
        None \<Rightarrow> Normal ''{}''
      | Some rows \<Rightarrow>
          if length rows = 0 then Normal ''{}''
          else if length rows = 1 \<and> \<not> truthy (row_key (rows ! 0)) then
            js_ToString (row_value (rows ! 0))
          else Normal (JSON_stringify (JObject (snd (foldl add_row (True, []) rows)))))"

text \<open>
  \<^verbatim>\<open>JSON.stringify\<close> of a JSON value or of \<^verbatim>\<open>undefined\<close>, for which it returns
  \<^verbatim>\<open>undefined\<close> and no string.
\<close>

definition JSON_stringify_any :: "json option \<Rightarrow> string option" where
  "JSON_stringify_any v = (case v of None \<Rightarrow> None | Some x \<Rightarrow> Some (JSON_stringify x))"

text \<open>
  The body of the \<^verbatim>\<open>try\<close> block of \<^verbatim>\<open>updateJsonAtPath\<close>.  The parameter
  \<^verbatim>\<open>newValue\<close> has the type \<^verbatim>\<open>any\<close>: here it is a JSON value or \<^verbatim>\<open>undefined\<close>
  (\<open>None\<close>), and so is the result a string or \<^verbatim>\<open>undefined\<close>.
\<close>

definition updateJsonAtPath_try ::
  "string \<Rightarrow> segment list option \<Rightarrow> json option \<Rightarrow> string option completion" where
  "updateJsonAtPath_try json path newValue =
     (case JSON_parse json of
        Throw e \<Rightarrow> Throw e
      | Normal obj \<Rightarrow>
          (case path of
             None \<Rightarrow> Normal (JSON_stringify_any newValue)
           | Some p \<Rightarrow>
               if length p = 0 then Normal (JSON_stringify_any newValue)
               else
                 (case js_assign obj (hd p) (tl p) newValue of
                    Throw e \<Rightarrow> Throw e
                  | Normal obj' \<Rightarrow> Normal (Some (JSON_stringify obj')))))"

text \<open>The \<^verbatim>\<open>catch\<close> clause returns the text it was given.\<close>

definition updateJsonAtPath ::
  "string \<Rightarrow> segment list option \<Rightarrow> json option \<Rightarrow> string option completion" where
  "updateJsonAtPath json path newValue =
     (case updateJsonAtPath_try json path newValue of
        Normal updated \<Rightarrow> Normal updated
      | Throw e \<Rightarrow> Normal (Some json))"

text \<open>
  Modelled from the spec: the stores \<^verbatim>\<open>useJson\<close> and \<^verbatim>\<open>useGraph\<close> are modules that
  are not part of the source file.  The document store holds the document
  text, and \<^verbatim>\<open>setJson\<close> replaces it; the node-graph store holds the nodes and the
  selected node, and \<^verbatim>\<open>setState\<close> replaces both at once.  The state of the modal
  adds the two \<^verbatim>\<open>useState\<close> cells of the component and the errors that
  \<^verbatim>\<open>console.error\<close> has logged.
\<close>

record modal_state =
  store_json :: string
  nodes :: "NodeData list"
  selectedNode :: "NodeData option"
  isEditing :: bool
  editedContent :: string
  console :: "js_error list"

text \<open>\<^verbatim>\<open>Array.prototype.map\<close> with a callback that can throw.\<close>

fun map_completion :: "('a \<Rightarrow> 'b completion) \<Rightarrow> 'a list \<Rightarrow> 'b list completion" where
  "map_completion f [] = Normal []"
| "map_completion f (x # xs) =
     (case f x of
        Throw e \<Rightarrow> Throw e
      | Normal y \<Rightarrow>
          (case map_completion f xs of
             Throw e \<Rightarrow> Throw e
           | Normal ys \<Rightarrow> Normal (y # ys)))"

text \<open>
  The row with the value
  \<^verbatim>\<open>row.key && parsedContent[row.key] !== undefined ? parsedContent[row.key] : row.value\<close>.
\<close>

definition merge_row :: "json \<Rightarrow> NodeRow \<Rightarrow> NodeRow completion" where
  "merge_row parsedContent row =
     (case row_key row of
        None \<Rightarrow> Normal row
      | Some k \<Rightarrow>
          if k = [] then Normal row
          else
            (case js_get parsedContent (Key k) of
               Throw e \<Rightarrow> Throw e
             | Normal None \<Rightarrow> Normal row
             | Normal (Some v) \<Rightarrow> Normal (row\<lparr>row_value := v\<rparr>)))"

definition handleEdit :: "modal_state \<Rightarrow> unit completion \<times> modal_state" where
  "handleEdit st =
     (case normalizeNodeData
             (Some (case selectedNode st of None \<Rightarrow> [] | Some nodeData \<Rightarrow> node_text nodeData)) of
        Throw e \<Rightarrow> (Throw e, st)
      | Normal content \<Rightarrow> (Normal (), st\<lparr>editedContent := content, isEditing := True\<rparr>))"

text \<open>
  The body of the \<^verbatim>\<open>try\<close> block of \<^verbatim>\<open>handleSave\<close>, with the state at the point
  where it ends: \<^verbatim>\<open>setJson\<close> has run when a later step throws.  The new value
  that \<^verbatim>\<open>updateJsonAtPath\<close> gets here is a JSON value, so its result is a string
  (lemma \<open>updateJsonAtPath_value\<close> below); the other two cases of the result
  do not occur and stand for totality only.
\<close>

definition handleSave_try :: "modal_state \<Rightarrow> unit completion \<times> modal_state" where
  "handleSave_try st =
     (case selectedNode st of
        None \<Rightarrow> (Normal (), st)
      | Some nodeData \<Rightarrow>
          (case JSON_parse (editedContent st) of
             Throw e \<Rightarrow> (Throw e, st)
           | Normal parsedContent \<Rightarrow>
               (case updateJsonAtPath (store_json st) (node_path nodeData) (Some parsedContent) of
                  Throw e \<Rightarrow> (Throw e, st)
                | Normal None \<Rightarrow> (Throw TypeError, st)
                | Normal (Some updatedJson) \<Rightarrow>
                    (let st1 = st\<lparr>store_json := updatedJson\<rparr> in
                     (case map_completion
                             (\<lambda>node.
                                if node_id node = node_id nodeData then
                                  (case map_completion (merge_row parsedContent) (node_text nodeData) of
                                     Throw e \<Rightarrow> Throw e
                                   | Normal rows \<Rightarrow> Normal (node\<lparr>node_text := rows\<rparr>))
                                else Normal node)
                             (nodes st1) of
                        Throw e \<Rightarrow> (Throw e, st1)
                      | Normal updatedNodes \<Rightarrow>
                          (case map_completion (merge_row parsedContent) (node_text nodeData) of
                             Throw e \<Rightarrow> (Throw e, st1)
                           | Normal rows \<Rightarrow>
                               (Normal (),
                                st1\<lparr>nodes := updatedNodes,
                                    selectedNode := Some (nodeData\<lparr>node_text := rows\<rparr>),
                                    isEditing := False\<rparr>)))))))"

text \<open>The \<^verbatim>\<open>catch\<close> clause logs the error and the handler returns.\<close>

definition handleSave :: "modal_state \<Rightarrow> unit completion \<times> modal_state" where
  "handleSave st =
     (case handleSave_try st of
        (Normal u, st') \<Rightarrow> (Normal (), st')
      | (Throw e, st') \<Rightarrow> (Normal (), st'\<lparr>console := console st' @ [e]\<rparr>))"

definition handleCancel :: "modal_state \<Rightarrow> unit completion \<times> modal_state" where
  "handleCancel st = (Normal (), st\<lparr>isEditing := False, editedContent := []\<rparr>)"



section \<open>Example states\<close>

definition row_a :: NodeRow where
  "row_a = \<lparr>row_key = Some ''a'', row_value = JNumber (Dec 1 0), row_type = ''number''\<rparr>"

definition row_b :: NodeRow where
  "row_b = \<lparr>row_key = Some ''b'', row_value = JArray [], row_type = ''array''\<rparr>"

definition node_ab :: NodeData where
  "node_ab = \<lparr>node_id = ''1'', node_text = [row_a, row_b], node_path = Some []\<rparr>"

definition state_ab :: "string \<Rightarrow> modal_state" where
  \<open>state_ab draft =
     \<lparr>store_json = ''{"a":1,"b":[]}'', nodes = [node_ab], selectedNode = Some node_ab,
      isEditing = True, editedContent = draft, console = []\<rparr>\<close>






section \<open>The document patcher\<close>

lemma updateJsonAtPath_Normal: "\<exists>r. updateJsonAtPath json path newValue = Normal r"
  by (cases "updateJsonAtPath_try json path newValue") (simp_all add: updateJsonAtPath_def)

lemma updateJsonAtPath_value:
  "\<exists>updated. updateJsonAtPath json path (Some v) = Normal (Some updated)"
  by (auto simp: updateJsonAtPath_def updateJsonAtPath_try_def JSON_stringify_any_def
      split: completion.splits option.splits)

text \<open>
  C3.  When the document text does not parse as JSON, \<^verbatim>\<open>updateJsonAtPath\<close>
  returns the text it was given, whatever the path and the new value, and
  throws nothing.
\<close>

theorem updateJsonAtPath_parse_failure:
  assumes "JSON_parse json = Throw e"
  shows "updateJsonAtPath json path newValue = Normal (Some json)"
  using assms by (simp add: updateJsonAtPath_def updateJsonAtPath_try_def)

theorem updateJsonAtPath_parse_failure_witness:
  "JSON_parse ''not json'' = Throw SyntaxError
   \<and> updateJsonAtPath ''not json'' (Some [Key ''a'']) (Some (JNumber (Dec 1 0))) = Normal (Some ''not json'')"
proof -
  have h: "JSON_parse ''not json'' = Throw SyntaxError"
    by code_simp
  show ?thesis
    using h updateJsonAtPath_parse_failure [OF h] by simp
qed

text \<open>
  C10, as the claim states it, at the new value \<^verbatim>\<open>undefined\<close> and the empty path,
  or no path: \<^verbatim>\<open>JSON.stringify(undefined, null, 2)\<close> is \<^verbatim>\<open>undefined\<close>, nothing is
  thrown, and \<^verbatim>\<open>updateJsonAtPath\<close> returns \<^verbatim>\<open>undefined\<close>, which is no string.
\<close>

theorem updateJsonAtPath_total_counterexample:
  \<open>updateJsonAtPath ''{"a":1}'' (Some []) None = Normal None
   \<and> updateJsonAtPath ''{"a":1}'' None None = Normal None\<close>
  by code_simp

text \<open>
  C10, amended.  \<^verbatim>\<open>updateJsonAtPath\<close> never throws, whatever the text, the path
  and the new value: what the \<^verbatim>\<open>try\<close> block throws is caught.  When the new
  value is a JSON value, the result is a string.  When the text does not parse,
  the result is the text; and so it is when the block throws on a path whose
  segments are no built-in property names.
\<close>

theorem updateJsonAtPath_total:
  "(\<exists>r. updateJsonAtPath json path newValue = Normal r)
   \<and> (\<forall>v. newValue = Some v \<longrightarrow> (\<exists>s. updateJsonAtPath json path newValue = Normal (Some s)))
   \<and> (\<forall>e. JSON_parse json = Throw e \<longrightarrow> updateJsonAtPath json path newValue = Normal (Some json))
   \<and> (\<forall>e. updateJsonAtPath_try json path newValue = Throw e
          \<and> (\<forall>p. path = Some p \<longrightarrow> list_all plain_segment p)
          \<longrightarrow> updateJsonAtPath json path newValue = Normal (Some json))"
proof (intro conjI allI impI)
  show "\<exists>r. updateJsonAtPath json path newValue = Normal r"
    by (rule updateJsonAtPath_Normal)
  show "\<exists>s. updateJsonAtPath json path newValue = Normal (Some s)" if "newValue = Some v" for v
    using that updateJsonAtPath_value [of json path v] by simp
  show "updateJsonAtPath json path newValue = Normal (Some json)" if "JSON_parse json = Throw e" for e
    using that by (simp add: updateJsonAtPath_def updateJsonAtPath_try_def)
  show "updateJsonAtPath json path newValue = Normal (Some json)"
    if "updateJsonAtPath_try json path newValue = Throw e
        \<and> (\<forall>p. path = Some p \<longrightarrow> list_all plain_segment p)" for e
    using that by (simp add: updateJsonAtPath_def)
qed

theorem updateJsonAtPath_total_witness:
  \<open>updateJsonAtPath_try ''{"a":1}'' (Some [Key ''x'', Key ''y'']) (Some (JNumber (Dec 1 0))) = Throw TypeError
   \<and> list_all plain_segment [Key ''x'', Key ''y'']
   \<and> updateJsonAtPath ''{"a":1}'' (Some [Key ''x'', Key ''y'']) (Some (JNumber (Dec 1 0))) = Normal (Some ''{"a":1}'')
   \<and> JSON_parse ''{'' = Throw SyntaxError
   \<and> updateJsonAtPath ''{'' None None = Normal (Some ''{'')\<close>
proof -
  have h: \<open>updateJsonAtPath_try ''{"a":1}'' (Some [Key ''x'', Key ''y'']) (Some (JNumber (Dec 1 0))) = Throw TypeError\<close>
    by code_simp
  have p: "list_all plain_segment [Key ''x'', Key ''y'']"
    by code_simp
  have q: "JSON_parse ''{'' = Throw SyntaxError"
    by code_simp
  have 1: \<open>updateJsonAtPath ''{"a":1}'' (Some [Key ''x'', Key ''y'']) (Some (JNumber (Dec 1 0))) = Normal (Some ''{"a":1}'')\<close>
    using h p updateJsonAtPath_total [of \<open>''{"a":1}''\<close> "Some [Key ''x'', Key ''y'']" "Some (JNumber (Dec 1 0))"]
    by simp
  have 2: "updateJsonAtPath ''{'' None None = Normal (Some ''{'')"
    using q updateJsonAtPath_total [of "''{''" None None] by simp
  from h p q 1 2 show ?thesis
    by simp
qed

section \<open>The edit session\<close>

text \<open>
  C9.  \<^verbatim>\<open>handleEdit\<close> followed by \<^verbatim>\<open>handleCancel\<close> leaves the document store and the
  node-graph store as they were; \<^verbatim>\<open>handleCancel\<close> returns normally, leaves the
  editing mode and empties the draft text.
\<close>

theorem handleEdit_handleCancel_stores:
  "fst (handleCancel (snd (handleEdit st))) = Normal ()
   \<and> store_json (snd (handleCancel (snd (handleEdit st)))) = store_json st
   \<and> nodes (snd (handleCancel (snd (handleEdit st)))) = nodes st
   \<and> selectedNode (snd (handleCancel (snd (handleEdit st)))) = selectedNode st
   \<and> isEditing (snd (handleCancel (snd (handleEdit st)))) = False
   \<and> editedContent (snd (handleCancel (snd (handleEdit st)))) = []"
  by (simp add: handleCancel_def handleEdit_def split: completion.splits)





text \<open>
  C4, as the claim states it, at a state whose draft is the text \<^verbatim>\<open>{\<close>: the
  draft does not parse, and \<^verbatim>\<open>handleSave\<close> returns normally to its caller; the
  error goes to the console only.
\<close>

theorem handleSave_invalid_draft_counterexample:
  "JSON_parse (editedContent (state_ab ''{'')) = Throw SyntaxError
   \<and> fst (handleSave (state_ab ''{'')) = Normal ()
   \<and> snd (handleSave (state_ab ''{'')) = (state_ab ''{'')\<lparr>console := [SyntaxError]\<rparr>"
proof -
  have p: "JSON_parse ''{'' = Throw SyntaxError"
    by code_simp
  show ?thesis
    using p by (simp add: state_ab_def handleSave_def handleSave_try_def)
qed

text \<open>
  C4, amended.  When the draft text does not parse as JSON, \<^verbatim>\<open>handleSave\<close> leaves
  the document store, the node-graph store, the mode and the draft as they
  were and returns normally: no error reaches the caller.  With a selected
  node the error is appended to the console log; without one nothing is
  logged.
\<close>

theorem handleSave_invalid_draft:
  assumes "JSON_parse (editedContent st) = Throw e"
  shows "fst (handleSave st) = Normal ()
         \<and> snd (handleSave st) =
             (if selectedNode st = None then st else st\<lparr>console := console st @ [e]\<rparr>)"
  using assms by (simp add: handleSave_def handleSave_try_def split: option.splits)

theorem handleSave_invalid_draft_witness:
  "JSON_parse (editedContent (state_ab ''{'')) = Throw SyntaxError
   \<and> fst (handleSave (state_ab ''{'')) = Normal ()
   \<and> store_json (snd (handleSave (state_ab ''{''))) = store_json (state_ab ''{'')
   \<and> nodes (snd (handleSave (state_ab ''{''))) = nodes (state_ab ''{'')
   \<and> selectedNode (snd (handleSave (state_ab ''{''))) = selectedNode (state_ab ''{'')
   \<and> isEditing (snd (handleSave (state_ab ''{'')))
   \<and> console (snd (handleSave (state_ab ''{''))) = [SyntaxError]"
proof -
  have p: "JSON_parse ''{'' = Throw SyntaxError"
    by code_simp
  have h: "JSON_parse (editedContent (state_ab ''{'')) = Throw SyntaxError"
    using p by (simp add: state_ab_def)
  show ?thesis
    using h handleSave_invalid_draft [OF h] by (simp add: state_ab_def)
qed

section \<open>Objects as ordered lists of members\<close>

lemma set_obj_update: "set (obj_update ms k v) \<subseteq> insert (k, v) (set ms)"
  by (induction ms) (auto split: if_splits)

lemma set_obj_insert: "set (obj_insert ms k v) = insert (k, v) (set ms)"
  by (induction ms) (auto split: option.splits if_splits)

lemma set_obj_define: "set (obj_define ms k v) \<subseteq> insert (k, v) (set ms)"
  using set_obj_update [of ms k v] set_obj_insert [of ms k v]
  by (auto simp: obj_define_def)

lemma set_obj_assign: "set (snd (obj_assign (acc, ms) k (Some v))) \<subseteq> insert (k, v) (set ms)"
  using set_obj_define [of ms k v] by (auto simp: obj_assign_def)

lemma map_of_obj_update:
  "k \<in> fst ` set ms \<Longrightarrow> map_of (obj_update ms k v) = (map_of ms)(k \<mapsto> v)"
proof (induction ms)
  case Nil
  then show ?case by simp
next
  case (Cons m ms)
  obtain k' v' where m: "m = (k', v')" by (cases m)
  show ?case
  proof (cases "k' = k")
    case True
    then show ?thesis by (auto simp: m fun_eq_iff)
  next
    case False
    with Cons.prems m have "k \<in> fst ` set ms" by auto
    from Cons.IH [OF this] False show ?thesis
      by (auto simp: m fun_eq_iff)
  qed
qed

lemma map_of_obj_insert:
  "k \<notin> fst ` set ms \<Longrightarrow> map_of (obj_insert ms k v) = (map_of ms)(k \<mapsto> v)"
proof (induction ms)
  case Nil
  then show ?case by simp
next
  case (Cons m ms)
  obtain k' v' where m: "m = (k', v')" by (cases m)
  from Cons.prems m have ne: "k' \<noteq> k" and notin: "k \<notin> fst ` set ms" by auto
  show ?case
    using Cons.IH [OF notin] ne by (auto simp: m fun_eq_iff split: option.splits)
qed

lemma map_of_obj_define: "map_of (obj_define ms k v) = (map_of ms)(k \<mapsto> v)"
  by (simp add: obj_define_def map_of_obj_update map_of_obj_insert)

lemma keys_obj_define: "fst ` set (obj_define ms k v) = insert k (fst ` set ms)"
proof -
  have "dom (map_of (obj_define ms k v)) = insert k (dom (map_of ms))"
    by (simp add: map_of_obj_define)
  then show ?thesis by (simp add: dom_map_of_conv_image_fst)
qed

section \<open>The merge into the node\<close>







section \<open>Walking a path that leaves the containers\<close>

definition is_container :: "json \<Rightarrow> bool" where
  "is_container c \<longleftrightarrow> (case c of JObject ms \<Rightarrow> True | JArray xs \<Rightarrow> True | _ \<Rightarrow> False)"










section \<open>Digits\<close>

lemma of_char_digit_char: "n < 10 \<Longrightarrow> (of_char (digit_char n) :: nat) = 48 + n"
  by (simp add: digit_char_def)

lemma is_digit_digit_char: "n < 10 \<Longrightarrow> is_digit (digit_char n)"
  by (simp add: is_digit_def of_char_digit_char)

lemma digit_val_digit_char: "n < 10 \<Longrightarrow> digit_val (digit_char n) = n"
  by (simp add: digit_val_def of_char_digit_char)

lemma digit_char_eq_zero: "n < 10 \<Longrightarrow> digit_char n = CHR ''0'' \<longleftrightarrow> n = 0"
proof -
  assume n: "n < 10"
  have "digit_char n = CHR ''0'' \<longleftrightarrow> (of_char (digit_char n) :: nat) = of_char (CHR ''0'')"
    by (metis char_of_char)
  also have "\<dots> \<longleftrightarrow> n = 0"
    using n by (simp add: of_char_digit_char)
  finally show ?thesis .
qed

lemma is_digit_simps:
  "\<not> is_digit (CHR ''.'')" "\<not> is_digit (CHR ''e'')" "\<not> is_digit (CHR ''E'')"
  "\<not> is_digit (CHR ''-'')" "\<not> is_digit (CHR ''+'')" "\<not> is_digit (CHR '','')"
  "\<not> is_digit (CHR 0x0A)" "is_digit (CHR ''0'')"
  by (simp_all add: is_digit_def)

lemma digits_of_digits: "\<forall>c \<in> set (digits_of n). is_digit c"
proof (induction n rule: digits_of.induct)
  case (1 n)
  show ?case
  proof (cases "n < 10")
    case True
    then have "nat n < 10" by simp
    with True show ?thesis
      by (simp add: digits_of.simps [of n] is_digit_digit_char)
  next
    case False
    have "nat (n mod 10) < 10" by simp
    with False "1.IH" show ?thesis
      by (simp add: digits_of.simps [of n] is_digit_digit_char)
  qed
qed

lemma digits_of_nonempty: "digits_of n \<noteq> []"
  by (simp add: digits_of.simps [of n])

lemma int_of_digits_snoc: "int_of_digits (ds @ [c]) = 10 * int_of_digits ds + int (digit_val c)"
  by (simp add: int_of_digits_def)

lemma int_of_digits_Nil: "int_of_digits [] = 0"
  by (simp add: int_of_digits_def)

lemma int_of_digits_append:
  "int_of_digits (xs @ ys) = int_of_digits xs * 10 ^ length ys + int_of_digits ys"
proof (induction ys rule: rev_induct)
  case Nil
  then show ?case by (simp add: int_of_digits_Nil)
next
  case (snoc c ys)
  have "int_of_digits (xs @ ys @ [c]) = 10 * int_of_digits (xs @ ys) + int (digit_val c)"
    using int_of_digits_snoc [of "xs @ ys" c] by simp
  with snoc show ?case
    by (simp add: int_of_digits_snoc algebra_simps)
qed

lemma int_of_digits_zeros: "int_of_digits (replicate j (CHR ''0'')) = 0"
  by (induction j) (simp_all add: int_of_digits_Nil int_of_digits_snoc replicate_append_same [symmetric] digit_val_def)

lemma int_of_digits_digits_of: "0 \<le> n \<Longrightarrow> int_of_digits (digits_of n) = n"
proof (induction n rule: digits_of.induct)
  case (1 n)
  show ?case
  proof (cases "n < 10")
    case True
    with "1.prems" have "nat n < 10" by simp
    then have "int_of_digits [digit_char (nat n)] = int (nat n)"
      using int_of_digits_snoc [of "[]" "digit_char (nat n)"]
      by (simp add: int_of_digits_Nil digit_val_digit_char)
    with True "1.prems" show ?thesis
      by (simp add: digits_of.simps [of n])
  next
    case False
    with "1.prems" have ih: "int_of_digits (digits_of (n div 10)) = n div 10"
      using "1.IH" by simp
    have "nat (n mod 10) < 10" by simp
    then have "int (digit_val (digit_char (nat (n mod 10)))) = n mod 10"
      by (simp add: digit_val_digit_char)
    with False ih show ?thesis
      by (simp add: digits_of.simps [of n] int_of_digits_snoc)
  qed
qed

lemma hd_digits_of: "0 < n \<Longrightarrow> hd (digits_of n) \<noteq> CHR ''0''"
proof (induction n rule: digits_of.induct)
  case (1 n)
  show ?case
  proof (cases "n < 10")
    case True
    with "1.prems" have "nat n < 10" "nat n \<noteq> 0" by simp_all
    with True show ?thesis
      by (simp add: digits_of.simps [of n] digit_char_eq_zero)
  next
    case False
    then have "0 < n div 10" by simp
    with False "1.IH" have "hd (digits_of (n div 10)) \<noteq> CHR ''0''" by simp
    with False show ?thesis
      by (simp add: digits_of.simps [of n] digits_of_nonempty)
  qed
qed

lemma last_digits_of: "0 \<le> n \<Longrightarrow> last (digits_of n) = digit_char (nat (n mod 10))"
  by (simp add: digits_of.simps [of n])

lemma last_digits_of_zero: "0 \<le> n \<Longrightarrow> last (digits_of n) = CHR ''0'' \<longleftrightarrow> n mod 10 = 0"
proof -
  assume "0 \<le> n"
  have "nat (n mod 10) < 10" and "0 \<le> n mod 10" by simp_all
  from digit_char_eq_zero [OF this(1)] last_digits_of [OF \<open>0 \<le> n\<close>] this(2) show ?thesis
    by auto
qed

subsection \<open>Trailing zeros\<close>

lemma strip_zeros_decomp:
  "ds = strip_zeros ds @ replicate (length ds - length (strip_zeros ds)) (CHR ''0'')"
proof -
  let ?P = "\<lambda>c. c = CHR ''0''"
  have t: "takeWhile ?P xs = replicate (length (takeWhile ?P xs)) (CHR ''0'')" for xs
    by (induction xs) auto
  have "rev ds = takeWhile ?P (rev ds) @ dropWhile ?P (rev ds)"
    by simp
  then have "ds = rev (dropWhile ?P (rev ds)) @ rev (takeWhile ?P (rev ds))"
    by (metis rev_append rev_rev_ident)
  moreover have "rev (takeWhile ?P (rev ds)) = replicate (length (takeWhile ?P (rev ds))) (CHR ''0'')"
    using t [of "rev ds"] by (metis rev_replicate)
  moreover have "length (takeWhile ?P (rev ds)) = length ds - length (strip_zeros ds)"
    using takeWhile_dropWhile_id [of ?P "rev ds"]
    by (metis add_diff_cancel_right' length_append length_rev strip_zeros_def)
  ultimately show ?thesis
    by (simp add: strip_zeros_def)
qed

lemma strip_zeros_length: "length (strip_zeros ds) \<le> length ds"
  by (simp add: strip_zeros_def length_dropWhile_le [of _ "rev ds", simplified])

lemma strip_zeros_last: "ds \<noteq> [] \<Longrightarrow> last ds \<noteq> CHR ''0'' \<Longrightarrow> strip_zeros ds = ds"
  by (cases ds rule: rev_cases) (simp_all add: strip_zeros_def)

lemma strip_zeros_set: "set (strip_zeros ds) \<subseteq> set ds"
  by (auto simp: strip_zeros_def dest: set_dropWhileD)

lemma strip_zeros_nonempty:
  assumes "ds \<noteq> []" and "hd ds \<noteq> CHR ''0''"
  shows "strip_zeros ds \<noteq> [] \<and> hd (strip_zeros ds) = hd ds"
proof -
  have d: "ds = strip_zeros ds @ replicate (length ds - length (strip_zeros ds)) (CHR ''0'')"
    by (rule strip_zeros_decomp)
  have ne: "strip_zeros ds \<noteq> []"
  proof
    assume e: "strip_zeros ds = []"
    with d have "ds = replicate (length ds) (CHR ''0'')" by simp
    with assms show False
      by (metis hd_replicate length_0_conv)
  qed
  with d show ?thesis
    by (metis hd_append2)
qed

lemma int_of_digits_strip_zeros:
  "int_of_digits ds = int_of_digits (strip_zeros ds) * 10 ^ (length ds - length (strip_zeros ds))"
proof -
  have "int_of_digits ds =
        int_of_digits (strip_zeros ds @ replicate (length ds - length (strip_zeros ds)) (CHR ''0''))"
    using strip_zeros_decomp [of ds] by simp
  then show ?thesis
    by (simp add: int_of_digits_append int_of_digits_zeros)
qed
subsection \<open>Reading a number back\<close>

definition stops :: "string \<Rightarrow> bool" where
  "stops cs \<longleftrightarrow> cs = [] \<or> \<not> is_digit (hd cs)"

text \<open>What may follow a number in a text: no digit, point or exponent mark.\<close>

definition number_end :: "string \<Rightarrow> bool" where
  "number_end cs \<longleftrightarrow>
     cs = [] \<or> (\<not> is_digit (hd cs) \<and> hd cs \<noteq> CHR ''.'' \<and> hd cs \<noteq> CHR ''e'' \<and> hd cs \<noteq> CHR ''E'')"

lemma takeWhile_digits:
  assumes "\<forall>c \<in> set ds. is_digit c" and "stops rest"
  shows "takeWhile is_digit (ds @ rest) = ds" and "dropWhile is_digit (ds @ rest) = rest"
proof -
  have t: "takeWhile is_digit rest = []" and d: "dropWhile is_digit rest = rest"
    using assms(2) by (cases rest; simp add: stops_def)+
  show "takeWhile is_digit (ds @ rest) = ds"
    using assms(1) t by (simp add: takeWhile_append2)
  show "dropWhile is_digit (ds @ rest) = rest"
    using assms(1) d by (simp add: dropWhile_append2)
qed

lemma lex_frac_none:
  assumes "cs = [] \<or> hd cs \<noteq> CHR ''.''"
  shows "lex_frac cs = Some ([], cs)"
  using assms by (cases cs) (auto simp: lex_frac_def)

lemma lex_frac_some:
  assumes "fp \<noteq> []" and "\<forall>c \<in> set fp. is_digit c" and "stops rest"
  shows "lex_frac (CHR ''.'' # fp @ rest) = Some (fp, rest)"
  using assms takeWhile_digits [OF assms(2,3)] by (simp add: lex_frac_def)

lemma lex_exp_none:
  assumes "cs = [] \<or> (hd cs \<noteq> CHR ''e'' \<and> hd cs \<noteq> CHR ''E'')"
  shows "lex_exp cs = Some (0, cs)"
  using assms by (cases cs) (auto simp: lex_exp_def)

lemma lex_exp_plus:
  assumes "ep \<noteq> []" and "\<forall>c \<in> set ep. is_digit c" and "stops rest"
  shows "lex_exp (CHR ''e'' # CHR ''+'' # ep @ rest) = Some (int_of_digits ep, rest)"
  using assms takeWhile_digits [OF assms(2,3)] by (simp add: lex_exp_def)

lemma lex_exp_minus:
  assumes "ep \<noteq> []" and "\<forall>c \<in> set ep. is_digit c" and "stops rest"
  shows "lex_exp (CHR ''e'' # CHR ''-'' # ep @ rest) = Some (- int_of_digits ep, rest)"
  using assms takeWhile_digits [OF assms(2,3)] by (simp add: lex_exp_def)

text \<open>
  The parts of a number literal: the digits \<open>ip\<close> before the point, the
  fraction \<open>frac\<close> and the exponent \<open>ex\<close> as the two scanners read them.
\<close>

lemma lex_number_parts:
  assumes ip: "ip \<noteq> []" "\<forall>c \<in> set ip. is_digit c" "hd ip \<noteq> CHR ''0'' \<or> length ip = 1"
    and st: "stops tail"
    and fr: "lex_frac tail = Some (fp, tail')"
    and ex: "lex_exp tail' = Some (e, rest)"
  shows "lex_number ((if neg then ''-'' else []) @ ip @ tail) =
         Some (mk_number (if neg then - int_of_digits (ip @ fp) else int_of_digits (ip @ fp))
                 (e - int (length fp)), rest)"
proof -
  let ?cs = "(if neg then ''-'' else []) @ ip @ tail"
  have hd_ip: "is_digit (hd ip)"
    using ip(1,2) by (cases ip) auto
  then have "hd ip \<noteq> CHR ''-''"
    using is_digit_simps(4) by auto
  then have neg: "(?cs \<noteq> [] \<and> hd ?cs = CHR ''-'') = neg"
    using ip(1) by (cases ip) auto
  have cs1: "(if neg then tl ?cs else ?cs) = ip @ tail"
    by simp
  have tw: "takeWhile is_digit (ip @ tail) = ip" "dropWhile is_digit (ip @ tail) = tail"
    using takeWhile_digits [OF ip(2) st] by simp_all
  have ok: "\<not> (ip = [] \<or> (hd ip = CHR ''0'' \<and> length ip \<noteq> 1))"
    using ip(1,3) by auto
  show ?thesis
    unfolding lex_number_def Let_def neg cs1 tw
    using ok fr ex by simp
qed
definition normal_number :: "jsnumber \<Rightarrow> bool" where
  "normal_number x \<longleftrightarrow> (case x of Dec m d \<Rightarrow> d = 0 \<or> m mod 10 \<noteq> 0)"

lemma mk_number_frac: "0 < d \<Longrightarrow> m mod 10 \<noteq> 0 \<Longrightarrow> mk_number m (- int d) = Dec m d"
proof -
  assume d: "0 < d" and m: "m mod 10 \<noteq> 0"
  from d obtain d' where d': "d = Suc d'" by (cases d) auto
  have "nat (- (- int d)) = Suc d'" using d' by simp
  with d m d' show ?thesis
    by (simp add: mk_number_def del: of_nat_Suc)
qed

lemma mk_number_int: "0 \<le> e \<Longrightarrow> mk_number m e = Dec (m * 10 ^ nat e) 0"
  by (simp add: mk_number_def)

lemma strip_frac_normal: "normal_number (strip_frac m d)"
  by (induction m d rule: strip_frac.induct) (simp_all add: normal_number_def)

lemma mk_number_normal: "normal_number (mk_number m e)"
  by (simp add: mk_number_def strip_frac_normal) (simp add: normal_number_def)

lemma number_end_stops: "number_end rest \<Longrightarrow> stops rest"
  by (auto simp: number_end_def stops_def)

lemma lex_exponent_form:
  assumes sg: "sig \<noteq> []" "\<forall>c \<in> set sig. is_digit c" and ne: "number_end rest"
  shows "lex_number
           ((if neg then ''-'' else []) @ (if length sig = 1 then sig else hd sig # ''.'' @ tl sig)
              @ ''e'' @ (if e < 0 then ''-'' else ''+'') @ digits_of \<bar>e\<bar> @ rest) =
         Some (mk_number (if neg then - int_of_digits sig else int_of_digits sig)
                 (e - int (length sig - 1)), rest)"
proof -
  let ?ex = "CHR ''e'' # (if e < 0 then ''-'' else ''+'') @ digits_of \<bar>e\<bar> @ rest"
  have st: "stops rest" using ne by (rule number_end_stops)
  have ex: "lex_exp ?ex = Some (e, rest)"
  proof (cases "e < 0")
    case True
    then show ?thesis
      using lex_exp_minus [OF digits_of_nonempty digits_of_digits st, of "\<bar>e\<bar>"]
      by (simp add: int_of_digits_digits_of)
  next
    case False
    then show ?thesis
      using lex_exp_plus [OF digits_of_nonempty digits_of_digits st, of "\<bar>e\<bar>"]
      by (simp add: int_of_digits_digits_of)
  qed
  have st_ex: "stops ?ex"
    by (simp add: stops_def is_digit_simps)
  obtain c t where ct: "sig = c # t" using sg(1) by (cases sig) auto
  show ?thesis
  proof (cases "t = []")
    case True
    have fr: "lex_frac ?ex = Some ([], ?ex)"
      by (rule lex_frac_none) simp
    have "lex_number ((if neg then ''-'' else []) @ [c] @ ?ex) =
          Some (mk_number (if neg then - int_of_digits ([c] @ []) else int_of_digits ([c] @ []))
                  (e - int (length ([]::string))), rest)"
      using lex_number_parts [OF _ _ _ st_ex fr ex, of "[c]" neg] sg(2) ct by simp
    with True ct show ?thesis by simp
  next
    case False
    have digs: "\<forall>c \<in> set t. is_digit c" using sg(2) ct by simp
    have fr: "lex_frac (CHR ''.'' # t @ ?ex) = Some (t, ?ex)"
      by (rule lex_frac_some [OF False digs st_ex])
    have st_fr: "stops (CHR ''.'' # t @ ?ex)"
      by (simp add: stops_def is_digit_simps)
    have "lex_number ((if neg then ''-'' else []) @ [c] @ (CHR ''.'' # t @ ?ex)) =
          Some (mk_number (if neg then - int_of_digits ([c] @ t) else int_of_digits ([c] @ t))
                  (e - int (length t)), rest)"
      using lex_number_parts [OF _ _ _ st_fr fr ex, of "[c]" neg] sg(2) ct by simp
    with False ct show ?thesis by simp
  qed
qed

lemma lex_plain_form:
  assumes ip: "ip \<noteq> []" "\<forall>c \<in> set ip. is_digit c" "hd ip \<noteq> CHR ''0'' \<or> length ip = 1"
    and ne: "number_end rest"
  shows "lex_number ((if neg then ''-'' else []) @ ip @ rest) =
         Some (mk_number (if neg then - int_of_digits ip else int_of_digits ip) 0, rest)"
proof -
  have fr: "lex_frac rest = Some ([], rest)"
    using ne by (intro lex_frac_none) (auto simp: number_end_def)
  have ex: "lex_exp rest = Some (0, rest)"
    using ne by (intro lex_exp_none) (auto simp: number_end_def)
  show ?thesis
    using lex_number_parts [OF ip number_end_stops [OF ne] fr ex, of neg] by simp
qed

lemma lex_point_form:
  assumes ip: "ip \<noteq> []" "\<forall>c \<in> set ip. is_digit c" "hd ip \<noteq> CHR ''0'' \<or> length ip = 1"
    and fp: "fp \<noteq> []" "\<forall>c \<in> set fp. is_digit c"
    and ne: "number_end rest"
  shows "lex_number ((if neg then ''-'' else []) @ ip @ ''.'' @ fp @ rest) =
         Some (mk_number (if neg then - int_of_digits (ip @ fp) else int_of_digits (ip @ fp))
                 (- int (length fp)), rest)"
proof -
  have st: "stops rest" using ne by (rule number_end_stops)
  have fr: "lex_frac (CHR ''.'' # fp @ rest) = Some (fp, rest)"
    by (rule lex_frac_some [OF fp st])
  have ex: "lex_exp rest = Some (0, rest)"
    using ne by (intro lex_exp_none) (auto simp: number_end_def)
  have st_fr: "stops (CHR ''.'' # fp @ rest)"
    by (simp add: stops_def is_digit_simps)
  show ?thesis
    using lex_number_parts [OF ip st_fr fr ex, of neg] by simp
qed
lemma lex_number_number_to_string:
  assumes nx: "normal_number x" and ne: "number_end rest"
  shows "lex_number (number_to_string x @ rest) = Some (x, rest)"
proof -
  obtain m d where x: "x = Dec m d" by (cases x)
  show ?thesis
  proof (cases "m = 0")
    case True
    with nx x have d: "d = 0" by (simp add: normal_number_def)
    have "lex_number ((if False then ''-'' else []) @ ''0'' @ rest) =
          Some (mk_number (if False then - int_of_digits ''0'' else int_of_digits ''0'') 0, rest)"
      by (rule lex_plain_form [OF _ _ _ ne]) (simp_all add: is_digit_simps)
    moreover have "int_of_digits ''0'' = 0"
      using int_of_digits_zeros [of 1] by simp
    ultimately show ?thesis
      using True d x by (simp add: number_to_string_def mk_number_def)
  next
    case False
    define a where "a = \<bar>m\<bar>"
    define ds where "ds = digits_of a"
    define sig where "sig = strip_zeros ds"
    define n where "n = int (length ds) - int d"
    define neg where "neg = (m < 0)"
    have a: "0 < a" using False by (simp add: a_def)
    have m: "(neg \<longrightarrow> - a = m) \<and> (\<not> neg \<longrightarrow> a = m)" by (simp add: neg_def a_def)
    have ds: "ds \<noteq> []" "\<forall>c \<in> set ds. is_digit c" "hd ds \<noteq> CHR ''0''" "int_of_digits ds = a"
      using a by (simp_all add: ds_def digits_of_nonempty digits_of_digits hd_digits_of
          int_of_digits_digits_of)
    have sg: "sig \<noteq> []" "\<forall>c \<in> set sig. is_digit c" "hd sig \<noteq> CHR ''0''" "length sig \<le> length ds"
      using strip_zeros_nonempty [OF ds(1,3)] strip_zeros_set [of ds] ds(2,3) strip_zeros_length [of ds]
      by (auto simp: sig_def)
    have val: "a = int_of_digits sig * 10 ^ (length ds - length sig)"
      using int_of_digits_strip_zeros [of ds] ds(4) by (simp add: sig_def)
    have dec: "ds = sig @ replicate (length ds - length sig) (CHR ''0'')"
      using strip_zeros_decomp [of ds] by (simp add: sig_def)
    define body where "body =
        (if int (length sig) \<le> n \<and> n \<le> 21 then sig @ replicate (nat (n - int (length sig))) (CHR ''0'')
         else if 0 < n \<and> n \<le> 21 then take (nat n) sig @ ''.'' @ drop (nat n) sig
         else if - 6 < n \<and> n \<le> 0 then ''0.'' @ replicate (nat (- n)) (CHR ''0'') @ sig
         else (if int (length sig) = 1 then sig else hd sig # ''.'' @ tl sig)
              @ ''e'' @ (if n - 1 < 0 then ''-'' else ''+'') @ digits_of \<bar>n - 1\<bar>)"
    have str: "number_to_string x = (if neg then ''-'' else []) @ body"
      using False
      by (simp add: number_to_string_def x Let_def body_def n_def sig_def ds_def a_def neg_def)
    have expo: "lex_number ((if neg then ''-'' else [])
                  @ ((if int (length sig) = 1 then sig else hd sig # ''.'' @ tl sig)
                     @ ''e'' @ (if n - 1 < 0 then ''-'' else ''+'') @ digits_of \<bar>n - 1\<bar>) @ rest) =
                Some (mk_number (if neg then - int_of_digits sig else int_of_digits sig)
                        (n - 1 - int (length sig - 1)), rest)"
      using lex_exponent_form [OF sg(1,2) ne, of neg "n - 1"] by simp
    have len1: "int (length sig - 1) = int (length sig) - 1"
      using sg(1) by (cases sig) auto
    show ?thesis
    proof (cases "d = 0")
      case True
      then have n: "n = int (length ds)" by (simp add: n_def)
      show ?thesis
      proof (cases "n \<le> 21")
        case True
        with n sg(4) have "body = sig @ replicate (length ds - length sig) (CHR ''0'')"
          by (simp add: body_def nat_diff_distrib')
        with dec have body: "body = ds" by simp
        have "lex_number ((if neg then ''-'' else []) @ ds @ rest) =
              Some (mk_number (if neg then - int_of_digits ds else int_of_digits ds) 0, rest)"
          using ds by (intro lex_plain_form [OF _ _ _ ne]) simp_all
        with body str ds(4) m \<open>d = 0\<close> x show ?thesis
          by (simp add: mk_number_def)
      next
        case False
        with n ds(1) have body: "body = (if int (length sig) = 1 then sig else hd sig # ''.'' @ tl sig)
              @ ''e'' @ (if n - 1 < 0 then ''-'' else ''+'') @ digits_of \<bar>n - 1\<bar>"
          by (simp add: body_def)
        define E where "E = n - 1 - int (length sig - 1)"
        have e: "0 \<le> E"
          using n sg(4) len1 by (simp add: E_def)
        have "nat E = length ds - length sig"
          using n sg(4) len1 by (simp add: E_def)
        with val have v: "int_of_digits sig * 10 ^ nat E = a"
          by simp
        have "mk_number (if neg then - int_of_digits sig else int_of_digits sig) E = Dec m 0"
        proof (cases neg)
          case True
          with m v show ?thesis by (simp add: mk_number_int [OF e])
        next
          case False
          with m v show ?thesis by (simp add: mk_number_int [OF e])
        qed
        with expo [folded E_def] body str \<open>d = 0\<close> x show ?thesis
          by simp
      qed
    next
      case False
      then have d: "0 < d" by simp
      with nx x have m10: "m mod 10 \<noteq> 0" by (simp add: normal_number_def)
      then have "a mod 10 \<noteq> 0"
        by (simp add: a_def abs_if zmod_zminus1_not_zero)
      then have "last ds \<noteq> CHR ''0''"
        using last_digits_of_zero [of a] a by (simp add: ds_def)
      then have sig_ds: "sig = ds"
        using strip_zeros_last [OF ds(1)] by (simp add: sig_def)
      have n_lt: "n < int (length ds)" using d by (simp add: n_def)
      have res: "mk_number m (- int d) = Dec m d"
        by (rule mk_number_frac [OF d m10])
      consider (point) "0 < n" "n \<le> 21" | (small) "- 6 < n" "n \<le> 0" | (expo) "\<not> (0 < n \<and> n \<le> 21)" "\<not> (- 6 < n \<and> n \<le> 0)"
        by linarith
      then show ?thesis
      proof cases
        case point
        then have body: "body = take (nat n) ds @ ''.'' @ drop (nat n) ds"
          using n_lt by (simp add: body_def sig_ds)
        have ip: "take (nat n) ds \<noteq> []" "\<forall>c \<in> set (take (nat n) ds). is_digit c"
            "hd (take (nat n) ds) \<noteq> CHR ''0''"
          using point ds by (auto dest: in_set_takeD)
        have fp: "drop (nat n) ds \<noteq> []" "\<forall>c \<in> set (drop (nat n) ds). is_digit c"
          using n_lt point ds by (auto dest: in_set_dropD)
        have len: "int (length (drop (nat n) ds)) = int d"
          using point n_lt by (simp add: n_def)
        have "lex_number ((if neg then ''-'' else []) @ take (nat n) ds @ ''.'' @ drop (nat n) ds @ rest) =
              Some (mk_number (if neg then - int_of_digits (take (nat n) ds @ drop (nat n) ds)
                               else int_of_digits (take (nat n) ds @ drop (nat n) ds))
                      (- int (length (drop (nat n) ds))), rest)"
          using ip fp by (intro lex_point_form [OF _ _ _ _ _ ne]) simp_all
        with body str ds(4) m len res x show ?thesis
          by simp
      next
        case small
        then have body: "body = ''0.'' @ replicate (nat (- n)) (CHR ''0'') @ ds"
          using n_lt by (simp add: body_def sig_ds)
        let ?fp = "replicate (nat (- n)) (CHR ''0'') @ ds"
        have fp: "?fp \<noteq> []" "\<forall>c \<in> set ?fp. is_digit c"
          using ds by (auto simp: is_digit_simps)
        have len: "int (length ?fp) = int d"
          using small by (simp add: n_def)
        have z: "int_of_digits (CHR ''0'' # replicate (nat (- n)) (CHR ''0'')) = 0"
          using int_of_digits_zeros [of "Suc (nat (- n))"] by simp
        have v: "int_of_digits (''0'' @ ?fp) = a"
          using int_of_digits_append [of "CHR ''0'' # replicate (nat (- n)) (CHR ''0'')" ds] ds(4) z
          by simp
        have "lex_number ((if neg then ''-'' else []) @ ''0'' @ ''.'' @ ?fp @ rest) =
              Some (mk_number (if neg then - int_of_digits (''0'' @ ?fp) else int_of_digits (''0'' @ ?fp))
                      (- int (length ?fp)), rest)"
          using fp by (intro lex_point_form [OF _ _ _ _ _ ne]) (simp_all add: is_digit_simps)
        with body str v m len res x show ?thesis
          by simp
      next
        case expo
        have c1: "\<not> (int (length sig) \<le> n \<and> n \<le> 21)"
          using n_lt by (simp add: sig_ds)
        have body: "body = (if int (length sig) = 1 then sig else hd sig # ''.'' @ tl sig)
              @ ''e'' @ (if n - 1 < 0 then ''-'' else ''+'') @ digits_of \<bar>n - 1\<bar>"
          unfolding body_def by (simp only: c1 expo if_False)
        have "n - 1 - int (length sig - 1) = - int d"
          using len1 by (simp add: n_def sig_ds)
        with expo body str ds(4) m res x sig_ds \<open>lex_number _ = _\<close> show ?thesis
          by simp
      qed
    qed
  qed
qed

section \<open>Reading a string literal back\<close>

lemma hex_val_hex_char: "n < 16 \<Longrightarrow> hex_val (hex_char n) = Some n"
  by (auto simp: hex_val_def hex_char_def Let_def)

lemma hex4_control:
  assumes "n < 32"
  shows "hex4 (CHR ''0'') (CHR ''0'') (hex_char (n div 16)) (hex_char (n mod 16)) = Some n"
proof -
  have "n div 16 < 16" "n mod 16 < 16" using assms by simp_all
  then show ?thesis
    by (simp add: hex4_def hex_val_hex_char) (simp add: hex_val_def)
qed

lemma prepend_Some: "prepend p (Some (s, rest)) = Some (p @ s, rest)"
  by (simp add: prepend_def)

lemma lex_string_escape_char: "lex_string (escape_char c @ cs) = prepend [c] (lex_string cs)"
proof -
  consider (quote) "c = CHR 0x22" | (bslash) "c = CHR 0x5C"
    | (short) "c = CHR 0x08 \<or> c = CHR 0x0C \<or> c = CHR 0x0A \<or> c = CHR 0x0D \<or> c = CHR 0x09"
    | (control) "c \<noteq> CHR 0x08" "c \<noteq> CHR 0x0C" "c \<noteq> CHR 0x0A" "c \<noteq> CHR 0x0D" "c \<noteq> CHR 0x09"
        "(of_char c :: nat) < 0x20"
    | (plain) "c \<noteq> CHR 0x22" "c \<noteq> CHR 0x5C" "\<not> (of_char c :: nat) < 0x20"
    by (cases "(of_char c :: nat) < 0x20") auto
  then show ?thesis
  proof cases
    case quote
    then show ?thesis by (simp add: escape_char_def simple_escape_def)
  next
    case bslash
    then show ?thesis by (simp add: escape_char_def simple_escape_def)
  next
    case short
    then show ?thesis by (auto simp: escape_char_def simple_escape_def)
  next
    case control
    let ?n = "of_char c :: nat"
    have ne: "c \<noteq> CHR 0x22" "c \<noteq> CHR 0x5C"
      using control(6) by auto
    have esc: "escape_char c =
        [CHR 0x5C, CHR ''u'', CHR ''0'', CHR ''0'', hex_char (?n div 16), hex_char (?n mod 16)]"
      using control ne by (simp add: escape_char_def)
    have h: "hex4 (CHR ''0'') (CHR ''0'') (hex_char (?n div 16)) (hex_char (?n mod 16)) = Some ?n"
      using control(6) by (intro hex4_control) simp
    have u: "utf8_encode ?n = [c]"
      using control(6) by (simp add: utf8_encode_def)
    show ?thesis
      using control(6) by (simp add: esc h u)
  next
    case plain
    have "c \<noteq> CHR 0x08" "c \<noteq> CHR 0x0C" "c \<noteq> CHR 0x0A" "c \<noteq> CHR 0x0D" "c \<noteq> CHR 0x09"
      using plain(3) by auto
    with plain show ?thesis by (simp add: escape_char_def)
  qed
qed

lemma lex_string_escaped:
  "lex_string (concat (map escape_char s) @ CHR 0x22 # rest) = Some (s, rest)"
  by (induction s) (simp_all add: lex_string_escape_char prepend_Some)

lemma lex_string_quote: "lex_string (tl (quote s) @ rest) = Some (s, rest)"
  using lex_string_escaped [of s rest] by (simp add: quote_def)

section \<open>The tokens of a serialized value\<close>

fun toks :: "json \<Rightarrow> token list"
  and toks_elems :: "json list \<Rightarrow> token list"
  and toks_members :: "(string \<times> json) list \<Rightarrow> token list" where
  "toks JNull = [TNull]"
| "toks (JBool b) = [if b then TTrue else TFalse]"
| "toks (JNumber x) = [TNumber x]"
| "toks (JString s) = [TString s]"
| "toks (JArray xs) = (if xs = [] then [TLBrack, TRBrack] else TLBrack # toks_elems xs @ [TRBrack])"
| "toks (JObject ms) = (if ms = [] then [TLBrace, TRBrace] else TLBrace # toks_members ms @ [TRBrace])"
| "toks_elems [] = []"
| "toks_elems (x # xs) = toks x @ (if xs = [] then [] else TComma # toks_elems xs)"
| "toks_members [] = []"
| "toks_members (m # ms) =
     TString (fst m) # TColon # toks (snd m) @ (if ms = [] then [] else TComma # toks_members ms)"

text \<open>The numbers of a value are in normal form.\<close>

fun normal_numbers :: "json \<Rightarrow> bool" where
  "normal_numbers (JNumber x) = normal_number x"
| "normal_numbers (JArray xs) = (\<forall>x \<in> set xs. normal_numbers x)"
| "normal_numbers (JObject ms) = (\<forall>m \<in> set ms. normal_numbers (snd m))"
| "normal_numbers _ = True"

text \<open>What follows a value in a serialization: the end, a comma or a line break.\<close>

definition value_end :: "string \<Rightarrow> bool" where
  "value_end cs \<longleftrightarrow> cs = [] \<or> hd cs = CHR '','' \<or> hd cs = CHR 0x0A"

lemma value_end_number_end: "value_end cs \<Longrightarrow> number_end cs"
  by (auto simp: value_end_def number_end_def is_digit_simps)

definition with_toks :: "token list \<Rightarrow> token list option \<Rightarrow> token list option" where
  "with_toks ts r = (case r of None \<Rightarrow> None | Some rest \<Rightarrow> Some (ts @ rest))"

lemma cons_tok_map: "cons_tok t r = with_toks [t] r"
  by (cases r) (simp_all add: cons_tok_def with_toks_def)

lemma with_toks_append: "with_toks a (with_toks b r) = with_toks (a @ b) r"
  by (cases r) (simp_all add: with_toks_def)

lemma with_toks_Nil: "with_toks [] r = r"
  by (cases r) (simp_all add: with_toks_def)

lemma lexer_ws: "is_ws c \<Longrightarrow> lexer (c # cs) = lexer cs"
  by (simp add: lexer.simps)

lemma lexer_spaces: "lexer (replicate n (CHR '' '') @ cs) = lexer cs"
  by (induction n) (simp_all add: lexer_ws is_ws_def)

lemma lexer_newline: "lexer (newline i @ cs) = lexer cs"
  by (simp add: newline_def lexer_ws is_ws_def lexer_spaces)

lemma lexer_punct:
  "lexer (CHR ''{'' # cs) = with_toks [TLBrace] (lexer cs)"
  "lexer (CHR ''}'' # cs) = with_toks [TRBrace] (lexer cs)"
  "lexer (CHR ''['' # cs) = with_toks [TLBrack] (lexer cs)"
  "lexer (CHR '']'' # cs) = with_toks [TRBrack] (lexer cs)"
  "lexer (CHR '':'' # cs) = with_toks [TColon] (lexer cs)"
  "lexer (CHR '','' # cs) = with_toks [TComma] (lexer cs)"
  by (simp_all add: lexer.simps is_ws_def cons_tok_map)

lemma lexer_literal:
  "lexer (''null'' @ cs) = with_toks [TNull] (lexer cs)"
  "lexer (''true'' @ cs) = with_toks [TTrue] (lexer cs)"
  "lexer (''false'' @ cs) = with_toks [TFalse] (lexer cs)"
  by (simp_all add: lexer.simps is_ws_def is_digit_def cons_tok_map)

lemma lexer_quote: "lexer (quote s @ cs) = with_toks [TString s] (lexer cs)"
  using lex_string_escaped [of s cs]
  by (simp add: quote_def lexer.simps is_ws_def cons_tok_map)

lemma is_digit_not_special:
  assumes "is_digit c \<or> c = CHR ''-''"
  shows "\<not> is_ws c" "c \<noteq> CHR ''{''" "c \<noteq> CHR ''}''" "c \<noteq> CHR ''[''" "c \<noteq> CHR '']''"
    "c \<noteq> CHR '':''" "c \<noteq> CHR '',''" "c \<noteq> CHR 0x22"
  using assms by (auto simp: is_digit_def is_ws_def)

lemma lex_number_hd:
  assumes "lex_number cs = Some r"
  shows "cs \<noteq> [] \<and> (is_digit (hd cs) \<or> hd cs = CHR ''-'')"
proof (cases cs)
  case Nil
  with assms show ?thesis by (simp add: lex_number_def)
next
  case (Cons c t)
  show ?thesis
  proof (cases "c = CHR ''-''")
    case True
    with Cons show ?thesis by simp
  next
    case False
    with assms Cons have "takeWhile is_digit (c # t) \<noteq> []"
      unfolding lex_number_def Let_def by (simp split: if_splits)
    then have "is_digit c" by (simp split: if_splits)
    with Cons show ?thesis by simp
  qed
qed

lemma lexer_number:
  assumes "normal_number x" and "value_end cs"
  shows "lexer (number_to_string x @ cs) = with_toks [TNumber x] (lexer cs)"
proof -
  have l: "lex_number (number_to_string x @ cs) = Some (x, cs)"
    by (rule lex_number_number_to_string [OF assms(1) value_end_number_end [OF assms(2)]])
  from lex_number_hd [OF this] obtain c t where ct: "number_to_string x @ cs = c # t"
    and c: "is_digit c \<or> c = CHR ''-''"
    by (cases "number_to_string x @ cs") auto
  show ?thesis
    using l c is_digit_not_special [OF c]
    unfolding ct by (auto simp: lexer.simps cons_tok_map)
qed

lemma lexer_serialize:
  "normal_numbers v \<Longrightarrow> value_end rest \<Longrightarrow>
     lexer (serialize i v @ rest) = with_toks (toks v) (lexer rest)"
  "xs \<noteq> [] \<Longrightarrow> \<forall>x \<in> set xs. normal_numbers x \<Longrightarrow> value_end rest \<Longrightarrow>
     lexer (serialize_elems i xs @ rest) = with_toks (toks_elems xs) (lexer rest)"
  "ms \<noteq> [] \<Longrightarrow> \<forall>m \<in> set ms. normal_numbers (snd m) \<Longrightarrow> value_end rest \<Longrightarrow>
     lexer (serialize_members i ms @ rest) = with_toks (toks_members ms) (lexer rest)"
proof (induction i v and i xs and i ms arbitrary: rest and rest and rest
    rule: serialize_serialize_elems_serialize_members.induct)
  case (1 i)
  then show ?case using lexer_literal(1) [of rest] by simp
next
  case (2 i b)
  then show ?case using lexer_literal(2,3) [of rest] by simp
next
  case (3 i x)
  then show ?case by (simp add: lexer_number)
next
  case (4 i s)
  then show ?case by (simp add: lexer_quote)
next
  case (5 i xs)
  show ?case
  proof (cases "xs = []")
    case True
    then show ?thesis by (simp add: lexer_punct with_toks_append)
  next
    case False
    have ve: "value_end (newline i @ CHR '']'' # rest)"
      by (simp add: value_end_def newline_def)
    from "5.prems" have nn: "\<forall>x \<in> set xs. normal_numbers x" by simp
    have "lexer (serialize_elems (Suc i) xs @ newline i @ CHR '']'' # rest) =
          with_toks (toks_elems xs) (lexer (newline i @ CHR '']'' # rest))"
      by (rule "5.IH" [OF False False nn ve])
    with False show ?thesis
      by (simp add: lexer_punct lexer_newline with_toks_append)
  qed
next
  case (6 i ms)
  show ?case
  proof (cases "ms = []")
    case True
    then show ?thesis by (simp add: lexer_punct with_toks_append)
  next
    case False
    have ve: "value_end (newline i @ CHR ''}'' # rest)"
      by (simp add: value_end_def newline_def)
    from "6.prems" have nn: "\<forall>m \<in> set ms. normal_numbers (snd m)" by simp
    have "lexer (serialize_members (Suc i) ms @ newline i @ CHR ''}'' # rest) =
          with_toks (toks_members ms) (lexer (newline i @ CHR ''}'' # rest))"
      by (rule "6.IH" [OF False False nn ve])
    with False show ?thesis
      by (simp add: lexer_punct lexer_newline with_toks_append)
  qed
next
  case (7 i)
  then show ?case by simp
next
  case (8 i x xs)
  from "8.prems" have nx: "normal_numbers x" by simp
  show ?case
  proof (cases "xs = []")
    case True
    with "8.IH"(1) [OF nx "8.prems"(3)] show ?thesis by simp
  next
    case False
    have ve: "value_end (CHR '','' # newline i @ serialize_elems i xs @ rest)"
      by (simp add: value_end_def)
    from "8.prems" have nn: "\<forall>x \<in> set xs. normal_numbers x" by simp
    have "lexer (serialize i x @ CHR '','' # newline i @ serialize_elems i xs @ rest) =
          with_toks (toks x) (lexer (CHR '','' # newline i @ serialize_elems i xs @ rest))"
      by (rule "8.IH"(1) [OF nx ve])
    moreover have "lexer (serialize_elems i xs @ rest) = with_toks (toks_elems xs) (lexer rest)"
      by (rule "8.IH"(2) [OF False False nn "8.prems"(3)])
    ultimately show ?thesis
      using False by (simp add: lexer_punct lexer_newline with_toks_append)
  qed
next
  case (9 i)
  then show ?case by simp
next
  case (10 i m ms)
  from "10.prems" have nx: "normal_numbers (snd m)" by simp
  show ?case
  proof (cases "ms = []")
    case True
    with "10.IH"(1) [OF nx "10.prems"(3)] show ?thesis
      by (simp add: lexer_quote lexer_punct lexer_ws is_ws_def with_toks_append)
  next
    case False
    have ve: "value_end (CHR '','' # newline i @ serialize_members i ms @ rest)"
      by (simp add: value_end_def)
    from "10.prems" have nn: "\<forall>m \<in> set ms. normal_numbers (snd m)" by simp
    have "lexer (serialize i (snd m) @ CHR '','' # newline i @ serialize_members i ms @ rest) =
          with_toks (toks (snd m)) (lexer (CHR '','' # newline i @ serialize_members i ms @ rest))"
      by (rule "10.IH"(1) [OF nx ve])
    moreover have "lexer (serialize_members i ms @ rest) = with_toks (toks_members ms) (lexer rest)"
      by (rule "10.IH"(2) [OF False False nn "10.prems"(3)])
    ultimately show ?thesis
      using False by (simp add: lexer_quote lexer_punct lexer_ws is_ws_def lexer_newline with_toks_append)
  qed
qed

lemma lexer_JSON_stringify:
  "normal_numbers v \<Longrightarrow> lexer (JSON_stringify v) = Some (toks v)"
  using lexer_serialize(1) [of v "[]" 0]
  by (simp add: JSON_stringify_def value_end_def lexer.simps(1) with_toks_def)

section \<open>Parsing the tokens of a value\<close>

text \<open>
  The order of the own keys of an object: array indices in ascending order,
  then the other keys.
\<close>

definition key_before :: "string \<Rightarrow> string \<Rightarrow> bool" where
  "key_before k k' \<longleftrightarrow>
     (case index_of_key k of
        None \<Rightarrow> index_of_key k' = None
      | Some i \<Rightarrow> (case index_of_key k' of None \<Rightarrow> True | Some i' \<Rightarrow> i < i'))"

definition js_ordered :: "(string \<times> json) list \<Rightarrow> bool" where
  "js_ordered ms \<longleftrightarrow> distinct (map fst ms) \<and> sorted_wrt key_before (map fst ms)"

fun ordered_objects :: "json \<Rightarrow> bool" where
  "ordered_objects (JArray xs) = (\<forall>x \<in> set xs. ordered_objects x)"
| "ordered_objects (JObject ms) = (js_ordered ms \<and> (\<forall>m \<in> set ms. ordered_objects (snd m)))"
| "ordered_objects _ = True"

definition define_member :: "(string \<times> json) list \<Rightarrow> string \<times> json \<Rightarrow> (string \<times> json) list" where
  "define_member acc m = obj_define acc (fst m) (snd m)"

lemma obj_insert_last:
  assumes "\<forall>k' \<in> fst ` set ms. key_before k' k"
  shows "obj_insert ms k v = ms @ [(k, v)]"
  using assms
proof (induction ms)
  case Nil
  then show ?case by simp
next
  case (Cons m ms)
  obtain k' v' where m: "m = (k', v')" by (cases m)
  from Cons.prems m have kb: "key_before k' k" and rest: "\<forall>k' \<in> fst ` set ms. key_before k' k"
    by auto
  from kb Cons.IH [OF rest] show ?case
    by (auto simp: m key_before_def split: option.splits)
qed

lemma foldl_define_member:
  assumes "js_ordered (acc @ ms)"
  shows "foldl define_member acc ms = acc @ ms"
  using assms
proof (induction ms arbitrary: acc)
  case Nil
  then show ?case by simp
next
  case (Cons m ms)
  obtain k v where m: "m = (k, v)" by (cases m)
  from Cons.prems m have notin: "k \<notin> fst ` set acc"
    and before: "\<forall>k' \<in> fst ` set acc. key_before k' k"
    by (auto simp: js_ordered_def sorted_wrt_append)
  have "define_member acc m = acc @ [m]"
    using notin obj_insert_last [OF before, of v] by (simp add: define_member_def obj_define_def m)
  moreover have "js_ordered ((acc @ [m]) @ ms)"
    using Cons.prems by simp
  ultimately show ?case
    using Cons.IH [of "acc @ [m]"] by simp
qed

lemma toks_first:
  "toks v \<noteq> [] \<and> hd (toks v) \<noteq> TRBrack \<and> hd (toks v) \<noteq> TRBrace"
  by (cases v) auto

lemma parse_value_open_array:
  assumes "ts \<noteq> []" and "hd ts \<noteq> TRBrack"
  shows "parse_value st (TLBrack # ts) = parse_value (FArr [] # st) ts"
  using assms by (cases ts) (auto split: token.splits)

lemma parse_elems:
  assumes "\<forall>x \<in> set xs. \<forall>st ts. parse_value st (toks x @ ts) = parse_after x st ts"
  shows "parse_after v0 (FArr es # st) ((if xs = [] then [] else TComma # toks_elems xs) @ TRBrack # ts) =
         parse_after (JArray (rev es @ v0 # xs)) st ts"
  using assms
proof (induction xs arbitrary: v0 es)
  case Nil
  then show ?case by simp
next
  case (Cons x xs)
  have "parse_after v0 (FArr es # st) ((TComma # toks_elems (x # xs)) @ TRBrack # ts) =
        parse_value (FArr (v0 # es) # st) (toks x @ ((if xs = [] then [] else TComma # toks_elems xs) @ TRBrack # ts))"
    by simp
  also have "\<dots> = parse_after x (FArr (v0 # es) # st) ((if xs = [] then [] else TComma # toks_elems xs) @ TRBrack # ts)"
    using Cons.prems by simp
  also have "\<dots> = parse_after (JArray (rev (v0 # es) @ x # xs)) st ts"
    using Cons.IH [of x "v0 # es"] Cons.prems by simp
  finally show ?case by simp
qed

lemma parse_members:
  assumes "\<forall>m \<in> set ms. \<forall>st ts. parse_value st (toks (snd m) @ ts) = parse_after (snd m) st ts"
  shows "parse_after v0 (FObj acc k0 # st) ((if ms = [] then [] else TComma # toks_members ms) @ TRBrace # ts) =
         parse_after (JObject (foldl define_member (obj_define acc k0 v0) ms)) st ts"
  using assms
proof (induction ms arbitrary: v0 acc k0)
  case Nil
  then show ?case by simp
next
  case (Cons m ms)
  let ?more = "(if ms = [] then [] else TComma # toks_members ms) @ TRBrace # ts"
  have "parse_after v0 (FObj acc k0 # st) ((TComma # toks_members (m # ms)) @ TRBrace # ts) =
        parse_value (FObj (obj_define acc k0 v0) (fst m) # st) (toks (snd m) @ ?more)"
    by simp
  also have "\<dots> = parse_after (snd m) (FObj (obj_define acc k0 v0) (fst m) # st) ?more"
    using Cons.prems by simp
  also have "\<dots> = parse_after (JObject (foldl define_member (obj_define (obj_define acc k0 v0) (fst m) (snd m)) ms)) st ts"
    using Cons.IH [of "snd m" "obj_define acc k0 v0" "fst m"] Cons.prems by simp
  finally show ?case
    using define_member_def [of "obj_define acc k0 v0" m] by simp
qed

lemma parse_value_toks:
  "ordered_objects v \<Longrightarrow> parse_value st (toks v @ ts) = parse_after v st ts"
proof (induction v arbitrary: st ts)
  case (JArray xs)
  show ?case
  proof (cases xs)
    case Nil
    then show ?thesis by simp
  next
    case (Cons x xs')
    have ih: "\<forall>y \<in> set (x # xs'). \<forall>st ts. parse_value st (toks y @ ts) = parse_after y st ts"
      using JArray Cons by auto
    let ?more = "(if xs' = [] then [] else TComma # toks_elems xs') @ TRBrack # ts"
    have "parse_value st (toks (JArray xs) @ ts) = parse_value st (TLBrack # toks x @ ?more)"
      using Cons by simp
    also have "\<dots> = parse_value (FArr [] # st) (toks x @ ?more)"
      using toks_first [of x] by (intro parse_value_open_array) (auto simp: hd_append)
    also have "\<dots> = parse_after x (FArr [] # st) ?more"
      using ih by simp
    also have "\<dots> = parse_after (JArray (rev [] @ x # xs')) st ts"
      using ih by (intro parse_elems) simp
    finally show ?thesis using Cons by simp
  qed
next
  case (JObject ms)
  show ?case
  proof (cases ms)
    case Nil
    then show ?thesis by simp
  next
    case (Cons m ms')
    have ih: "\<forall>p \<in> set (m # ms'). \<forall>st ts. parse_value st (toks (snd p) @ ts) = parse_after (snd p) st ts"
    proof (intro ballI allI)
      fix p st ts
      assume p: "p \<in> set (m # ms')"
      then have "snd p \<in> Basic_BNFs.snds p" "ordered_objects (snd p)"
        using JObject.prems Cons by (auto simp: snds.simps)
      with JObject.IH [of p "snd p"] p Cons
      show "parse_value st (toks (snd p) @ ts) = parse_after (snd p) st ts"
        by simp
    qed
    let ?more = "(if ms' = [] then [] else TComma # toks_members ms') @ TRBrace # ts"
    have "parse_value st (toks (JObject ms) @ ts) =
          parse_value st (TLBrace # TString (fst m) # TColon # toks (snd m) @ ?more)"
      using Cons by simp
    also have "\<dots> = parse_value (FObj [] (fst m) # st) (toks (snd m) @ ?more)"
      by simp
    also have "\<dots> = parse_after (snd m) (FObj [] (fst m) # st) ?more"
      using ih by simp
    also have "\<dots> = parse_after (JObject (foldl define_member (obj_define [] (fst m) (snd m)) ms')) st ts"
      using ih by (intro parse_members) simp
    also have "\<dots> = parse_after (JObject (foldl define_member [] ms)) st ts"
      using Cons define_member_def [of "[]" m] by simp
    also have "foldl define_member [] ms = ms"
      using foldl_define_member [of "[]" ms] JObject.prems by simp
    finally show ?thesis .
  qed
qed simp_all

theorem JSON_parse_JSON_stringify:
  assumes "normal_numbers v" and "ordered_objects v"
  shows "JSON_parse (JSON_stringify v) = Normal v"
  using parse_value_toks [OF assms(2), of "[]" "[]"]
  by (simp add: JSON_parse_def lexer_JSON_stringify [OF assms(1)])

section \<open>The order of the keys of an object\<close>

lemma digit_char_digit_val: "is_digit c \<Longrightarrow> digit_char (digit_val c) = c"
proof -
  assume "is_digit c"
  then have r: "48 \<le> (of_char c :: nat)" "(of_char c :: nat) \<le> 57"
    by (simp_all add: is_digit_def)
  then have "48 + ((of_char c :: nat) - 48) = of_char c"
    by arith
  then show ?thesis
    by (simp add: digit_char_def digit_val_def)
qed

lemma digit_val_less: "is_digit c \<Longrightarrow> digit_val c < 10"
  by (auto simp: is_digit_def digit_val_def)

lemma int_of_digits_nonneg: "0 \<le> int_of_digits ds"
  by (induction ds rule: rev_induct) (simp_all add: int_of_digits_Nil int_of_digits_snoc)

lemma digits_of_int_of_digits:
  assumes "ds \<noteq> []" and "\<forall>c \<in> set ds. is_digit c" and "hd ds \<noteq> CHR ''0'' \<or> length ds = 1"
  shows "digits_of (int_of_digits ds) = ds"
  using assms
proof (induction ds rule: rev_induct)
  case Nil
  then show ?case by simp
next
  case (snoc c ds)
  from snoc.prems have c: "is_digit c" by simp
  show ?case
  proof (cases "ds = []")
    case True
    have "int_of_digits [c] = int (digit_val c)"
      using int_of_digits_snoc [of "[]" c] by (simp add: int_of_digits_Nil)
    with True c show ?thesis
      using digit_val_less [OF c]
      by (simp add: digits_of.simps [of "int (digit_val c)"] digit_char_digit_val)
  next
    case False
    with snoc.prems have hd: "hd ds \<noteq> CHR ''0''" and dig: "\<forall>c \<in> set ds. is_digit c"
      by auto
    have ih: "digits_of (int_of_digits ds) = ds"
      using snoc.IH [OF False dig] hd by simp
    have "int_of_digits ds \<noteq> 0"
    proof
      assume "int_of_digits ds = 0"
      with ih have "ds = digits_of 0" by simp
      then have "ds = ''0''"
        using digit_char_eq_zero [of 0] by (simp add: digits_of.simps [of 0])
      with hd show False by simp
    qed
    with int_of_digits_nonneg [of ds] have pos: "1 \<le> int_of_digits ds" by linarith
    let ?n = "10 * int_of_digits ds + int (digit_val c)"
    have d: "int (digit_val c) < 10" "0 \<le> int (digit_val c)"
      using digit_val_less [OF c] by simp_all
    have ge: "\<not> ?n < 10" using pos d by linarith
    have dv: "?n div 10 = int_of_digits ds" using d by simp
    have md: "?n mod 10 = int (digit_val c)" using d by simp
    have "digits_of ?n = digits_of (?n div 10) @ [digit_char (nat (?n mod 10))]"
      using ge by (subst digits_of.simps) simp
    with dv md ih c show ?thesis
      by (simp add: int_of_digits_snoc digit_char_digit_val)
  qed
qed

lemma index_of_key_digits: "index_of_key k = Some i \<Longrightarrow> digits_of i = k"
  using digits_of_int_of_digits [of k]
  by (auto simp: index_of_key_def list_all_iff split: if_splits)

lemma index_of_key_inj:
  "index_of_key k = Some i \<Longrightarrow> index_of_key k' = Some i \<Longrightarrow> k = k'"
  by (metis index_of_key_digits)

lemma key_before_not_index: "index_of_key k = None \<Longrightarrow> key_before k' k"
  by (simp add: key_before_def split: option.splits)

lemma map_fst_obj_update: "map fst (obj_update ms k v) = map fst ms"
  by (induction ms) auto

lemma keys_obj_insert: "set (map fst (obj_insert ms k v)) = insert k (set (map fst ms))"
  using set_obj_insert [of ms k v] by (metis image_insert list.set_map fst_conv)

lemma distinct_obj_insert:
  "k \<notin> fst ` set ms \<Longrightarrow> distinct (map fst ms) \<Longrightarrow> distinct (map fst (obj_insert ms k v))"
proof (induction ms)
  case Nil
  then show ?case by simp
next
  case (Cons m ms)
  obtain k' v' where m: "m = (k', v')" by (cases m)
  from Cons.prems m have ih: "distinct (map fst (obj_insert ms k v))"
    using Cons.IH by auto
  have keys: "set (map fst (obj_insert ms k v)) = insert k (set (map fst ms))"
    by (rule keys_obj_insert)
  from Cons.prems m ih keys show ?case
    by (auto simp: m split: option.splits)
qed

lemma sorted_obj_insert:
  assumes "k \<notin> fst ` set ms" and "sorted_wrt key_before (map fst ms)"
  shows "sorted_wrt key_before (map fst (obj_insert ms k v))"
  using assms
proof (induction ms)
  case Nil
  then show ?case by simp
next
  case (Cons m ms)
  obtain k' v' where m: "m = (k', v')" by (cases m)
  from Cons.prems m have ne: "k' \<noteq> k" and notin: "k \<notin> fst ` set ms"
    and first: "\<forall>x \<in> set (map fst ms). key_before k' x"
    and sorted: "sorted_wrt key_before (map fst ms)"
    by auto
  have ih: "sorted_wrt key_before (map fst (obj_insert ms k v))"
    by (rule Cons.IH [OF notin sorted])
  have keys: "set (map fst (obj_insert ms k v)) = insert k (set (map fst ms))"
    by (rule keys_obj_insert)
  show ?case
  proof (cases "index_of_key k")
    case None
    then have "key_before k' k" by (rule key_before_not_index)
    with None ih keys first show ?thesis
      by (simp add: m)
  next
    case (Some i)
    show ?thesis
    proof (cases "index_of_key k'")
      case None
      have "\<forall>x \<in> set (map fst ms). key_before k x"
        using first None Some by (auto simp: key_before_def split: option.splits)
      moreover have "key_before k k'"
        using None Some by (simp add: key_before_def)
      ultimately show ?thesis
        using Some None first sorted by (simp add: m)
    next
      case (Some i')
      note i' = this
      show ?thesis
      proof (cases "i < i'")
        case True
        have "\<forall>x \<in> set (map fst ms). key_before k x"
          using first i' \<open>index_of_key k = Some i\<close> True
          by (auto simp: key_before_def split: option.splits)
        moreover have "key_before k k'"
          using i' \<open>index_of_key k = Some i\<close> True by (simp add: key_before_def)
        ultimately show ?thesis
          using \<open>index_of_key k = Some i\<close> i' True first sorted by (simp add: m)
      next
        case False
        have "i \<noteq> i'"
          using index_of_key_inj [of k i k'] \<open>index_of_key k = Some i\<close> i' ne by auto
        with False have "key_before k' k"
          using i' \<open>index_of_key k = Some i\<close> by (simp add: key_before_def)
        with \<open>index_of_key k = Some i\<close> i' False ih keys first show ?thesis
          by (simp add: m)
      qed
    qed
  qed
qed

lemma js_ordered_obj_define: "js_ordered ms \<Longrightarrow> js_ordered (obj_define ms k v)"
  using distinct_obj_insert [of k ms v] sorted_obj_insert [of k ms v]
  by (auto simp: js_ordered_def obj_define_def map_fst_obj_update)



section \<open>The values that JSON.parse returns\<close>

definition js_value :: "json \<Rightarrow> bool" where
  "js_value v \<longleftrightarrow> normal_numbers v \<and> ordered_objects v"

definition normal_token :: "token \<Rightarrow> bool" where
  "normal_token t \<longleftrightarrow> (case t of TNumber x \<Rightarrow> normal_number x | _ \<Rightarrow> True)"

fun js_frame :: "frame \<Rightarrow> bool" where
  "js_frame (FArr es) = (\<forall>x \<in> set es. js_value x)"
| "js_frame (FObj ms k) = (js_ordered ms \<and> (\<forall>m \<in> set ms. js_value (snd m)))"

lemma js_value_simps:
  "js_value JNull" "js_value (JBool b)" "js_value (JString s)"
  "js_value (JNumber x) = normal_number x"
  "js_value (JArray xs) = (\<forall>x \<in> set xs. js_value x)"
  "js_value (JObject ms) = (js_ordered ms \<and> (\<forall>m \<in> set ms. js_value (snd m)))"
  by (auto simp: js_value_def)

lemma lex_number_normal: "lex_number cs = Some (x, rest) \<Longrightarrow> normal_number x"
  unfolding lex_number_def Let_def
  by (auto simp: mk_number_normal split: if_splits option.splits)

lemma lexer_step:
  "lexer (c # cs) = None
   \<or> (\<exists>t rest. length rest < length (c # cs) \<and> normal_token t
          \<and> lexer (c # cs) = cons_tok t (lexer rest))
   \<or> (\<exists>rest. length rest < length (c # cs) \<and> lexer (c # cs) = lexer rest)"
proof -
  have tok: "length rest < length (c # cs) \<Longrightarrow> normal_token t \<Longrightarrow> lexer (c # cs) = cons_tok t (lexer rest)
      \<Longrightarrow> ?thesis" for t rest
    by blast
  have skip: "length rest < length (c # cs) \<Longrightarrow> lexer (c # cs) = lexer rest \<Longrightarrow> ?thesis" for rest
    by blast
  consider (ws) "is_ws c"
    | (punct) "\<not> is_ws c" "c = CHR ''{'' \<or> c = CHR ''}'' \<or> c = CHR ''['' \<or> c = CHR '']'' \<or> c = CHR '':'' \<or> c = CHR '',''"
    | (str) "\<not> is_ws c" "\<not> (c = CHR ''{'' \<or> c = CHR ''}'' \<or> c = CHR ''['' \<or> c = CHR '']'' \<or> c = CHR '':'' \<or> c = CHR '','')"
        "c = CHR 0x22"
    | (num) "\<not> is_ws c" "\<not> (c = CHR ''{'' \<or> c = CHR ''}'' \<or> c = CHR ''['' \<or> c = CHR '']'' \<or> c = CHR '':'' \<or> c = CHR '','')"
        "c \<noteq> CHR 0x22" "c = CHR ''-'' \<or> is_digit c"
    | (lit) "\<not> is_ws c" "\<not> (c = CHR ''{'' \<or> c = CHR ''}'' \<or> c = CHR ''['' \<or> c = CHR '']'' \<or> c = CHR '':'' \<or> c = CHR '','')"
        "c \<noteq> CHR 0x22" "\<not> (c = CHR ''-'' \<or> is_digit c)"
    by blast
  then show ?thesis
  proof cases
    case ws
    then show ?thesis by (intro skip [of cs]) (simp_all add: lexer.simps)
  next
    case punct
    then have "\<exists>t \<in> {TLBrace, TRBrace, TLBrack, TRBrack, TColon, TComma}.
                 lexer (c # cs) = cons_tok t (lexer cs)"
      using lexer_punct [of cs] by (elim disjE) (simp_all add: cons_tok_map)
    then obtain t where "lexer (c # cs) = cons_tok t (lexer cs)" "normal_token t"
      by (auto simp: normal_token_def)
    then show ?thesis using tok [of cs t] by simp
  next
    case str
    show ?thesis
    proof (cases "lex_string cs")
      case None
      with str show ?thesis by (simp add: lexer.simps)
    next
      case (Some r)
      obtain s rest where r: "r = (s, rest)" by (cases r)
      have "length rest < length (c # cs)"
        using lex_string_length [of cs s rest] Some r by simp
      moreover have "lexer (c # cs) = cons_tok (TString s) (lexer rest)"
        using str Some r by (simp add: lexer.simps)
      moreover have "normal_token (TString s)"
        by (simp add: normal_token_def)
      ultimately show ?thesis
        using tok [of rest "TString s"] by blast
    qed
  next
    case num
    show ?thesis
    proof (cases "lex_number (c # cs)")
      case None
      with num show ?thesis by (auto simp: lexer.simps)
    next
      case (Some r)
      obtain x rest where r: "r = (x, rest)" by (cases r)
      have "length rest < length (c # cs)"
        using lex_number_length [of "c # cs" x rest] Some r by simp
      moreover have "lexer (c # cs) = cons_tok (TNumber x) (lexer rest)"
        using num Some r by (auto simp: lexer.simps)
      moreover have "normal_token (TNumber x)"
        using lex_number_normal [of "c # cs" x rest] Some r by (simp add: normal_token_def)
      ultimately show ?thesis
        using tok [of rest "TNumber x"] by blast
    qed
  next
    case lit
    consider (t) "take 4 (c # cs) = ''true''"
      | (f) "take 4 (c # cs) \<noteq> ''true''" "take 5 (c # cs) = ''false''"
      | (n) "take 4 (c # cs) \<noteq> ''true''" "take 5 (c # cs) \<noteq> ''false''" "take 4 (c # cs) = ''null''"
      | (none) "take 4 (c # cs) \<noteq> ''true''" "take 5 (c # cs) \<noteq> ''false''" "take 4 (c # cs) \<noteq> ''null''"
      by blast
    then show ?thesis
    proof cases
      case t
      with lit have "lexer (c # cs) = cons_tok TTrue (lexer (drop 3 cs))"
        by (simp add: lexer.simps)
      then show ?thesis
        by (intro tok [of "drop 3 cs" TTrue]) (simp_all add: normal_token_def)
    next
      case f
      with lit have "lexer (c # cs) = cons_tok TFalse (lexer (drop 4 cs))"
        by (simp add: lexer.simps)
      then show ?thesis
        by (intro tok [of "drop 4 cs" TFalse]) (simp_all add: normal_token_def)
    next
      case n
      with lit have "lexer (c # cs) = cons_tok TNull (lexer (drop 3 cs))"
        by (simp add: lexer.simps)
      then show ?thesis
        by (intro tok [of "drop 3 cs" TNull]) (simp_all add: normal_token_def)
    next
      case none
      from lit(2) have ns: "c \<noteq> CHR ''{''" "c \<noteq> CHR ''}''" "c \<noteq> CHR ''[''" "c \<noteq> CHR '']''"
          "c \<noteq> CHR '':''" "c \<noteq> CHR '',''"
        by auto
      have "lexer (c # cs) = None"
        by (simp only: lexer.simps(2) ns lit(1,3,4) none if_False)
      then show ?thesis by simp
    qed
  qed
qed

lemma lexer_normal: "lexer cs = Some ts \<Longrightarrow> \<forall>t \<in> set ts. normal_token t"
proof (induction "length cs" arbitrary: cs ts rule: less_induct)
  case less
  show ?case
  proof (cases cs)
    case Nil
    with less.prems show ?thesis by (simp add: lexer.simps)
  next
    case (Cons c cs')
    from lexer_step [of c cs'] less.prems Cons
    consider (tok) t rest where "length rest < length cs" "normal_token t"
        "cons_tok t (lexer rest) = Some ts"
      | (skip) rest where "length rest < length cs" "lexer rest = Some ts"
      by auto
    then show ?thesis
    proof cases
      case tok
      from tok(3) obtain ts' where ts': "lexer rest = Some ts'" "ts = t # ts'"
        by (cases "lexer rest") (auto simp: cons_tok_def)
      from less.hyps [OF tok(1) ts'(1)] tok(2) ts'(2) show ?thesis by simp
    next
      case skip
      from less.hyps [OF skip] show ?thesis .
    qed
  qed
qed

lemma js_value_obj_define:
  assumes "js_ordered ms" and "\<forall>m \<in> set ms. js_value (snd m)" and "js_value v"
  shows "js_ordered (obj_define ms k v) \<and> (\<forall>m \<in> set (obj_define ms k v). js_value (snd m))"
  using assms set_obj_define [of ms k v] js_ordered_obj_define [of ms k v] by auto

lemma parse_value_lbrack:
  assumes "\<nexists>ts2. ts1 = TRBrack # ts2"
  shows "parse_value st (TLBrack # ts1) = parse_value (FArr [] # st) ts1"
proof (cases ts1)
  case Nil
  then show ?thesis by simp
next
  case (Cons a r)
  with assms have "a \<noteq> TRBrack" by simp
  with Cons show ?thesis by (cases a) simp_all
qed

lemma parse_value_lbrace:
  assumes "parse_value st (TLBrace # ts1) = Some v"
  shows "(\<exists>ts2. ts1 = TRBrace # ts2 \<and> parse_after (JObject []) st ts2 = Some v)
         \<or> (\<exists>k ts3. ts1 = TString k # TColon # ts3 \<and> parse_value (FObj [] k # st) ts3 = Some v)"
proof (cases ts1)
  case Nil
  with assms show ?thesis by simp
next
  case (Cons a r)
  show ?thesis
  proof (cases a)
    case TRBrace
    with assms Cons show ?thesis by simp
  next
    case (TString k)
    show ?thesis
    proof (cases r)
      case Nil
      with assms Cons TString show ?thesis by simp
    next
      case (Cons b r2)
      with assms \<open>ts1 = a # r\<close> TString show ?thesis by (cases b) simp_all
    qed
  qed (use assms Cons in simp_all)
qed

lemma parse_after_array:
  assumes "parse_after v0 (FArr es # st) ts = Some v"
  shows "(\<exists>ts1. ts = TComma # ts1 \<and> parse_value (FArr (v0 # es) # st) ts1 = Some v)
         \<or> (\<exists>ts1. ts = TRBrack # ts1 \<and> parse_after (JArray (rev (v0 # es))) st ts1 = Some v)"
proof (cases ts)
  case Nil
  with assms show ?thesis by simp
next
  case (Cons a r)
  with assms show ?thesis by (cases a) simp_all
qed

lemma parse_after_object:
  assumes "parse_after v0 (FObj ms k # st) ts = Some v"
  shows "(\<exists>k' ts3. ts = TComma # TString k' # TColon # ts3
            \<and> parse_value (FObj (obj_define ms k v0) k' # st) ts3 = Some v)
         \<or> (\<exists>ts1. ts = TRBrace # ts1 \<and> parse_after (JObject (obj_define ms k v0)) st ts1 = Some v)"
proof (cases ts)
  case Nil
  with assms show ?thesis by simp
next
  case (Cons a r)
  show ?thesis
  proof (cases a)
    case TRBrace
    with assms Cons show ?thesis by simp
  next
    case TComma
    show ?thesis
    proof (cases r)
      case Nil
      with assms Cons TComma show ?thesis by simp
    next
      case (Cons b r2)
      show ?thesis
      proof (cases b)
        case (TString k')
        show ?thesis
        proof (cases r2)
          case Nil
          with assms \<open>ts = a # r\<close> TComma \<open>r = b # r2\<close> TString show ?thesis by simp
        next
          case (Cons c r3)
          with assms \<open>ts = a # r\<close> TComma \<open>r = b # r2\<close> TString show ?thesis
            by (cases c) simp_all
        qed
      qed (use assms \<open>ts = a # r\<close> TComma Cons in simp_all)
    qed
  qed (use assms Cons in simp_all)
qed
lemma parse_js_value_aux:
  assumes "\<forall>t \<in> set ts. normal_token t" and "\<forall>f \<in> set st. js_frame f"
  shows "(parse_value st ts = Some v \<longrightarrow> js_value v)
         \<and> (js_value v0 \<longrightarrow> parse_after v0 st ts = Some v \<longrightarrow> js_value v)"
  using assms
proof (induction "length ts" arbitrary: ts st v0 rule: less_induct)
  case less
  have ih1: "js_value v" if "length ts' < length ts" "\<forall>t \<in> set ts'. normal_token t"
      "\<forall>f \<in> set st'. js_frame f" "parse_value st' ts' = Some v" for ts' st'
    using less.hyps [OF that(1,2,3)] that(4) by simp
  have ih2: "js_value v" if "length ts' < length ts" "\<forall>t \<in> set ts'. normal_token t"
      "\<forall>f \<in> set st'. js_frame f" "js_value v1" "parse_after v1 st' ts' = Some v" for ts' st' v1
    using less.hyps [OF that(1,2,3), of v1] that(4,5) by simp
  have part1: "js_value v" if p: "parse_value st ts = Some v"
  proof (cases ts)
    case Nil
    with p show ?thesis by simp
  next
    case (Cons t ts1)
    with less.prems(1) have nt: "\<forall>t \<in> set ts1. normal_token t" and t: "normal_token t"
      by simp_all
    have len: "length ts1 < length ts" using Cons by simp
    note after = ih2 [OF len nt less.prems(2)]
    show ?thesis
    proof (cases t)
      case TNull
      with p Cons after [of JNull] show ?thesis by (simp add: js_value_simps)
    next
      case TTrue
      with p Cons after [of "JBool True"] show ?thesis by (simp add: js_value_simps)
    next
      case TFalse
      with p Cons after [of "JBool False"] show ?thesis by (simp add: js_value_simps)
    next
      case (TNumber x)
      with p Cons t after [of "JNumber x"] show ?thesis
        by (simp add: js_value_simps normal_token_def)
    next
      case (TString s)
      with p Cons after [of "JString s"] show ?thesis by (simp add: js_value_simps)
    next
      case TLBrack
      show ?thesis
      proof (cases "\<exists>ts2. ts1 = TRBrack # ts2")
        case True
        then obtain ts2 where ts2: "ts1 = TRBrack # ts2" by blast
        have "parse_after (JArray []) st ts2 = Some v"
          using p Cons TLBrack ts2 by simp
        then show ?thesis
          using ih2 [of ts2 st "JArray []"] nt ts2 Cons less.prems(2) by (simp add: js_value_simps)
      next
        case False
        then have "parse_value (FArr [] # st) ts1 = Some v"
          using p Cons TLBrack parse_value_lbrack [of ts1 st] by simp
        then show ?thesis
          using ih1 [OF len nt, of "FArr [] # st"] less.prems(2) by simp
      qed
    next
      case TLBrace
      show ?thesis
      proof (cases "\<exists>ts2. ts1 = TRBrace # ts2")
        case True
        then obtain ts2 where ts2: "ts1 = TRBrace # ts2" by blast
        have "parse_after (JObject []) st ts2 = Some v"
          using p Cons TLBrace ts2 by simp
        then show ?thesis
          using ih2 [of ts2 st "JObject []"] nt ts2 Cons less.prems(2)
          by (simp add: js_value_simps js_ordered_def)
      next
        case False
        then obtain k ts3 where ts3: "ts1 = TString k # TColon # ts3"
          and pv: "parse_value (FObj [] k # st) ts3 = Some v"
          using p Cons TLBrace parse_value_lbrace [of st ts1 v] by auto
        show ?thesis
          using ih1 [of ts3 "FObj [] k # st"] pv nt ts3 Cons less.prems(2)
          by (simp add: js_ordered_def)
      qed
    qed (use p Cons in simp_all)
  qed
  have part2: "js_value v" if v0: "js_value v0" and p: "parse_after v0 st ts = Some v"
  proof (cases st)
    case Nil
    with p v0 show ?thesis by (simp split: if_splits)
  next
    case (Cons f st')
    from less.prems(2) Cons have f: "js_frame f" and fr: "\<forall>f \<in> set st'. js_frame f"
      by simp_all
    show ?thesis
    proof (cases f)
      case (FArr es)
      from p Cons FArr parse_after_array [of v0 es st' ts v] consider
          (comma) ts1 where "ts = TComma # ts1" "parse_value (FArr (v0 # es) # st') ts1 = Some v"
        | (close) ts1 where "ts = TRBrack # ts1" "parse_after (JArray (rev (v0 # es))) st' ts1 = Some v"
        by auto
      then show ?thesis
      proof cases
        case comma
        then show ?thesis
          using ih1 [of ts1 "FArr (v0 # es) # st'"] less.prems(1) fr f FArr v0 by simp
      next
        case close
        then show ?thesis
          using ih2 [of ts1 st' "JArray (rev (v0 # es))"] less.prems(1) fr f FArr v0
          by (simp add: js_value_simps)
      qed
    next
      case (FObj ms k)
      have d: "js_ordered (obj_define ms k v0) \<and> (\<forall>m \<in> set (obj_define ms k v0). js_value (snd m))"
        using js_value_obj_define [of ms v0 k] f FObj v0 by simp
      from p Cons FObj parse_after_object [of v0 ms k st' ts v] consider
          (comma) k' ts3 where "ts = TComma # TString k' # TColon # ts3"
            "parse_value (FObj (obj_define ms k v0) k' # st') ts3 = Some v"
        | (close) ts1 where "ts = TRBrace # ts1"
            "parse_after (JObject (obj_define ms k v0)) st' ts1 = Some v"
        by auto
      then show ?thesis
      proof cases
        case comma
        then show ?thesis
          using ih1 [of ts3 "FObj (obj_define ms k v0) k' # st'"] less.prems(1) fr d by simp
      next
        case close
        then show ?thesis
          using ih2 [of ts1 st' "JObject (obj_define ms k v0)"] less.prems(1) fr d
          by (simp add: js_value_simps)
      qed
    qed
  qed
  from part1 part2 show ?case by blast
qed

lemma JSON_parse_js_value:
  assumes "JSON_parse s = Normal v"
  shows "js_value v"
proof -
  from assms obtain ts where l: "lexer s = Some ts" and p: "parse_value [] ts = Some v"
    by (auto simp: JSON_parse_def split: option.splits)
  from parse_js_value_aux [OF lexer_normal [OF l], of "[]" v] p show ?thesis
    by simp
qed

theorem JSON_parse_stringify_roundtrip:
  assumes "js_value v"
  shows "JSON_parse (JSON_stringify v) = Normal v"
  using assms JSON_parse_JSON_stringify by (simp add: js_value_def)

section \<open>Fields and elements\<close>

text \<open>
  The own property of a container that a segment names: a field of an object,
  an element of an array.
\<close>

definition js_own :: "json \<Rightarrow> segment \<Rightarrow> json option" where
  "js_own c seg =
     (case c of
        JObject ms \<Rightarrow> map_of ms (key_of seg)
      | JArray xs \<Rightarrow>
          (case index_of_key (key_of seg) of
             Some i \<Rightarrow> if i < int (length xs) then Some (xs ! nat i) else None
           | None \<Rightarrow> None)
      | _ \<Rightarrow> None)"







lemma js_own_container: "js_own c seg = Some y \<Longrightarrow> is_container c"
  by (cases c) (auto simp: js_own_def is_container_def)







lemma js_value_iff_parsed: "js_value v \<longleftrightarrow> (\<exists>s. JSON_parse s = Normal v)"
  using JSON_parse_js_value JSON_parse_stringify_roundtrip by blast



section \<open>Patching and reading back\<close>




section \<open>The row normalizer\<close>



















section \<open>A single row without key\<close>

text \<open>
  C5, as the claim states it, at a single row without key whose value is the
  string \<^verbatim>\<open>hello\<close>: the result is the characters of the string, not its JSON text,
  and it does not parse.
\<close>

theorem normalizeNodeData_keyless_counterexample:
  \<open>normalizeNodeData (Some [\<lparr>row_key = None, row_value = JString ''hello'', row_type = ''string''\<rparr>])
     = Normal ''hello''
   \<and> JSON_stringify (JString ''hello'') = ''"hello"''
   \<and> JSON_parse ''hello'' = Throw SyntaxError\<close>
  by code_simp

text \<open>
  C5, amended.  For a single row without key, whose numbers are decimals that
  binary64 holds, the result is the string conversion of the value of the row,
  as the template literal makes it.  For \<^verbatim>\<open>null\<close>, a boolean or a number this is
  the JSON text of the value, and parsing it gives the value back.  For a
  string it is the characters of the string, without quotes and escapes.  For
  an object it is \<^verbatim>\<open>[object Object]\<close>, unless the object has an own member
  \<^verbatim>\<open>toString\<close>: then the conversion throws a TypeError.  For an array it is the
  join of its elements by commas, each converted in the same way, \<^verbatim>\<open>null\<close> as the
  empty string.
\<close>

theorem normalizeNodeData_keyless:
  assumes "\<not> truthy (row_key row)" and "safe_numbers (row_value row)"
  shows "normalizeNodeData (Some [row]) = js_ToString (row_value row)
         \<and> (\<forall>s. row_value row = JString s \<longrightarrow> normalizeNodeData (Some [row]) = Normal s)
         \<and> ((row_value row = JNull \<or> (\<exists>b. row_value row = JBool b)
               \<or> (\<exists>x. row_value row = JNumber x \<and> normal_number x))
              \<longrightarrow> normalizeNodeData (Some [row]) = Normal (JSON_stringify (row_value row))
                  \<and> JSON_parse (JSON_stringify (row_value row)) = Normal (row_value row))
         \<and> (\<forall>ms. row_value row = JObject ms
               \<longrightarrow> normalizeNodeData (Some [row]) =
                   (if ''toString'' \<in> fst ` set ms then Throw TypeError
                    else Normal ''[object Object]''))
         \<and> (\<forall>xs. row_value row = JArray xs \<longrightarrow> normalizeNodeData (Some [row]) = js_join xs)"
proof -
  have n: "normalizeNodeData (Some [row]) = js_ToString (row_value row)"
    using assms(1) by (simp add: normalizeNodeData_def)
  have s: "js_ToString (row_value row) = Normal (JSON_stringify (row_value row))
           \<and> js_value (row_value row)"
    if "row_value row = JNull \<or> (\<exists>b. row_value row = JBool b)
        \<or> (\<exists>x. row_value row = JNumber x \<and> normal_number x)"
    using that by (auto simp: JSON_stringify_def js_value_simps)
  show ?thesis
    using n s JSON_parse_stringify_roundtrip [of "row_value row"] by auto
qed

theorem normalizeNodeData_keyless_witness:
  \<open>\<not> truthy (row_key \<lparr>row_key = None, row_value = JNumber (Dec 5 0), row_type = ''number''\<rparr>)
   \<and> safe_numbers (JNumber (Dec 5 0)) \<and> normal_number (Dec 5 0)
   \<and> normalizeNodeData (Some [\<lparr>row_key = None, row_value = JNumber (Dec 5 0), row_type = ''number''\<rparr>])
       = Normal ''5''
   \<and> JSON_parse ''5'' = Normal (JNumber (Dec 5 0))
   \<and> \<not> truthy (row_key \<lparr>row_key = Some [], row_value = JString ''hello'', row_type = ''string''\<rparr>)
   \<and> normalizeNodeData (Some [\<lparr>row_key = Some [], row_value = JString ''hello'', row_type = ''string''\<rparr>])
       = Normal ''hello''
   \<and> normalizeNodeData
        (Some [\<lparr>row_key = None,
                row_value = JArray [JNumber (Dec 1 0), JArray [JNumber (Dec 2 0), JNull], JString ''a'',
                                    JObject [(''b'', JNull)]],
                row_type = ''array''\<rparr>])
       = Normal ''1,2,,a,[object Object]''\<close>
proof -
  let ?r = "\<lparr>row_key = None, row_value = JNumber (Dec 5 0), row_type = ''number''\<rparr>"
  let ?q = "\<lparr>row_key = Some [], row_value = JString ''hello'', row_type = ''string''\<rparr>"
  let ?xs = "[JNumber (Dec 1 0), JArray [JNumber (Dec 2 0), JNull], JString ''a'', JObject [(''b'', JNull)]]"
  let ?a = "\<lparr>row_key = None, row_value = JArray ?xs, row_type = ''array''\<rparr>"
  have 1: "\<not> truthy (row_key ?r)" "\<not> truthy (row_key ?q)" "\<not> truthy (row_key ?a)"
    by (simp_all add: truthy_def)
  have 2: "normal_number (Dec 5 0)" "safe_numbers (row_value ?r)" "safe_numbers (row_value ?q)"
    "safe_numbers (row_value ?a)" "safe_numbers (JNumber (Dec 5 0))"
    by (simp_all add: normal_number_def binary64_safe_def)
  have 3: "JSON_stringify (JNumber (Dec 5 0)) = ''5''" "number_to_string (Dec 5 0) = ''5''"
    by code_simp+
  have j: "js_join ?xs = Normal ''1,2,,a,[object Object]''"
    by code_simp
  from normalizeNodeData_keyless [OF 1(1) 2(2)] 2(1) 3
  have "normalizeNodeData (Some [?r]) = Normal ''5''" "JSON_parse ''5'' = Normal (JNumber (Dec 5 0))"
    by simp_all
  moreover from normalizeNodeData_keyless [OF 1(2) 2(3)]
  have "normalizeNodeData (Some [?q]) = Normal ''hello''"
    by simp
  moreover from normalizeNodeData_keyless [OF 1(3) 2(4)] j
  have "normalizeNodeData (Some [?a]) = Normal ''1,2,,a,[object Object]''"
    by simp
  ultimately show ?thesis
    using 1 2 by blast
qed

end
